theory Spec2Isabelle
  imports Main "HOL-Library.Word"
begin

unbundle bit_operations_syntax

section \<open>Configuration and result codes (kvstore.h)\<close>

text \<open>
  The store is written for 32-bit embedded targets: \<open>size_t\<close> is a 32-bit unsigned
  word, whose arithmetic wraps around. The length fields of a slot are \<open>uint32_t\<close>
  (\<open>KVSTORE_KEY_SIZE_BYTES = KVSTORE_VALUE_SIZE_BYTES = 4\<close>), stored in the byte order
  of the target, taken little-endian here.
\<close>

type_synonym size_t = "32 word"
type_synonym uint32_t = "32 word"
type_synonym uint8_t = "8 word"

definition KVSTORE_MAX_KEY_SIZE :: size_t where
  "KVSTORE_MAX_KEY_SIZE = 16"

definition KVSTORE_KEY_SIZE_BYTES :: size_t where
  "KVSTORE_KEY_SIZE_BYTES = 4"

definition KVSTORE_VALUE_SIZE_BYTES :: size_t where
  "KVSTORE_VALUE_SIZE_BYTES = 4"

definition KVSTORE_HEADER_SIZE_BYTES :: size_t where
  "KVSTORE_HEADER_SIZE_BYTES = 4"

definition KVSTORE_HEADER_MAGIC :: "uint8_t list" where
  "KVSTORE_HEADER_MAGIC = [0xf8, 0x2a, 0x93, 0x11]"

datatype KvStoreResult = KVSTORE_OK | KVSTORE_FAILED | KVSTORE_BAD_ARG | KVSTORE_NOT_FOUND

section \<open>Backend callbacks, store and cursor\<close>

text \<open>
  \<open>struct kvstore_backend\<close> holds three function pointers, each of which may be
  \<open>NULL\<close> (\<open>None\<close>). Every callback receives the opaque \<open>context\<close> pointer; the state
  behind that pointer is the type \<open>'c\<close>, passed to each callback and returned updated.
  \<open>read\<close> returns the bytes it stored into \<open>buf\<close>; \<open>write\<close> receives the bytes at
  \<open>buf\<close>.
\<close>

record 'c kvstore_backend =
  read :: "('c \<Rightarrow> size_t \<Rightarrow> size_t \<Rightarrow> (KvStoreResult \<times> uint8_t list) \<times> 'c) option"
  "write" :: "('c \<Rightarrow> uint8_t list \<Rightarrow> size_t \<Rightarrow> size_t \<Rightarrow> KvStoreResult \<times> 'c) option"
  get_size :: "('c \<Rightarrow> size_t \<times> 'c) option"

text \<open>
  \<open>struct kvstore\<close>: the backend and its context pointer. The pointer itself never
  changes after \<open>kvstore_init\<close>; the state it points to is the \<open>'c\<close> that every
  operation below takes as its last argument and returns. A \<open>KvStore *\<close> argument is an
  option, \<open>None\<close> for \<open>NULL\<close>.
\<close>

record 'c KvStore =
  backend :: "'c kvstore_backend"

record KvStoreCursor =
  cursor_position :: size_t
  cursor_key :: "uint8_t list"
  cursor_key_size :: size_t

text \<open>
  The caller's memory that \<open>read_slot\<close> writes to: the key and value buffers
  (\<open>None\<close> for \<open>NULL\<close>) and the two in/out length variables behind \<open>key_size\<close> and
  \<open>value_size\<close>.
\<close>

record read_bufs =
  rb_key :: "uint8_t list option"
  rb_key_size :: "size_t option"
  rb_value :: "uint8_t list option"
  rb_value_size :: "size_t option"

text \<open>Storing \<open>data\<close> at the start of a buffer leaves the rest of the buffer as it was.\<close>

definition buf_store :: "uint8_t list \<Rightarrow> uint8_t list \<Rightarrow> uint8_t list" where
  "buf_store buf data = data @ drop (length data) buf"

text \<open>The bytes of a \<open>uint32_t\<close> variable, and the variable read back from its bytes.\<close>

definition le_bytes :: "uint32_t \<Rightarrow> uint8_t list" where
  "le_bytes w = [ucast w, ucast (drop_bit 8 w), ucast (drop_bit 16 w), ucast (drop_bit 24 w)]"

fun le_word :: "uint8_t list \<Rightarrow> uint32_t" where
  "le_word [] = 0"
| "le_word (b # bs) = ucast b OR push_bit 8 (le_word bs)"

section \<open>Slot codec (kvstore.c)\<close>

definition calculate_slot_size :: "size_t \<Rightarrow> size_t \<Rightarrow> size_t" where
  "calculate_slot_size key_size value_size =
     KVSTORE_HEADER_SIZE_BYTES + KVSTORE_KEY_SIZE_BYTES + key_size
       + KVSTORE_VALUE_SIZE_BYTES + value_size"

definition calculate_value_size :: "size_t \<Rightarrow> size_t \<Rightarrow> size_t" where
  "calculate_value_size slot_size key_size =
     slot_size - KVSTORE_HEADER_SIZE_BYTES - KVSTORE_KEY_SIZE_BYTES - key_size
       - KVSTORE_VALUE_SIZE_BYTES"

text \<open>
  \<open>write_slot\<close>: every early return of the source is a branch. The key and value
  pointers may be \<open>NULL\<close>, in which case their bytes are not written.
\<close>

fun write_slot ::
  "'c KvStore option \<Rightarrow> size_t \<Rightarrow> uint8_t list option \<Rightarrow> size_t \<Rightarrow>
   uint8_t list option \<Rightarrow> size_t \<Rightarrow> 'c \<Rightarrow> KvStoreResult \<times> 'c" where
  "write_slot None pos k key_size v value_size c = (KVSTORE_BAD_ARG, c)"
| "write_slot (Some self) pos k key_size v value_size c =
    (if value_size = 0 then (KVSTORE_BAD_ARG, c) else
     case get_size (backend self) of None \<Rightarrow> (KVSTORE_BAD_ARG, c) | Some gs \<Rightarrow>
    (case write (backend self) of None \<Rightarrow> (KVSTORE_BAD_ARG, c) | Some wr \<Rightarrow>
     let slot_size = calculate_slot_size key_size value_size;
         (size, c) = gs c in
     if pos + slot_size > size then (KVSTORE_FAILED, c) else
     let (r, c) = wr c KVSTORE_HEADER_MAGIC pos KVSTORE_HEADER_SIZE_BYTES in
     if r \<noteq> KVSTORE_OK then (KVSTORE_FAILED, c) else
     let pos = pos + KVSTORE_HEADER_SIZE_BYTES;
         tmp = (ucast key_size :: uint32_t);
         (r, c) = wr c (le_bytes tmp) pos KVSTORE_KEY_SIZE_BYTES in
     if r \<noteq> KVSTORE_OK then (KVSTORE_FAILED, c) else
     let pos = pos + KVSTORE_KEY_SIZE_BYTES;
         (r, c) = (case k of None \<Rightarrow> (KVSTORE_OK, c) | Some kb \<Rightarrow> wr c kb pos key_size) in
     if r \<noteq> KVSTORE_OK then (KVSTORE_FAILED, c) else
     let pos = pos + key_size;
         tmp2 = (ucast value_size :: uint32_t);
         (r, c) = wr c (le_bytes tmp2) pos KVSTORE_VALUE_SIZE_BYTES in
     if r \<noteq> KVSTORE_OK then (KVSTORE_FAILED, c) else
     let pos = pos + KVSTORE_VALUE_SIZE_BYTES;
         (r, c) = (case v of None \<Rightarrow> (KVSTORE_OK, c) | Some vb \<Rightarrow> wr c vb pos value_size) in
     if r \<noteq> KVSTORE_OK then (KVSTORE_FAILED, c) else
     (KVSTORE_OK, c)))"

text \<open>
  \<open>read_slot\<close>, in three stages that follow the source top to bottom: the value
  part (from \<open>tmp2\<close> on), the key part (from \<open>tmp\<close> on) and the header part with the
  argument checks. \<open>size\<close> (here \<open>sz\<close>) is read once, at the start. The local \<open>header\<close> array is
  compared over its \<open>KVSTORE_HEADER_SIZE_BYTES\<close> bytes; \<open>tmp\<close> and \<open>tmp2\<close> start
  as 0 and are overwritten through a byte pointer.
\<close>

definition read_slot_value ::
  "('c \<Rightarrow> size_t \<Rightarrow> size_t \<Rightarrow> (KvStoreResult \<times> uint8_t list) \<times> 'c) \<Rightarrow> size_t \<Rightarrow>
   size_t \<Rightarrow> read_bufs \<Rightarrow> 'c \<Rightarrow> KvStoreResult \<times> read_bufs \<times> 'c" where
  "read_slot_value rd sz pos b c =
    (if pos + KVSTORE_VALUE_SIZE_BYTES > sz then (KVSTORE_FAILED, b, c) else
     let ((r, data), c) = rd c pos KVSTORE_VALUE_SIZE_BYTES in
     if r \<noteq> KVSTORE_OK then (KVSTORE_FAILED, b, c) else
     let tmp2 = le_word (take 4 (buf_store (le_bytes 0) data));
         pos = pos + KVSTORE_VALUE_SIZE_BYTES in
     if ucast tmp2 > the (rb_value_size b) \<and> rb_value b \<noteq> None then (KVSTORE_FAILED, b, c) else
     let b = b\<lparr>rb_value_size := Some (ucast tmp2)\<rparr> in
     if pos + ucast tmp2 > sz then (KVSTORE_FAILED, b, c) else
     case rb_value b of
       None \<Rightarrow> (KVSTORE_OK, b, c)
     | Some vbuf \<Rightarrow>
        (let ((r, data), c) = rd c pos (ucast tmp2) in
         if r \<noteq> KVSTORE_OK then (KVSTORE_FAILED, b, c)
         else (KVSTORE_OK, b\<lparr>rb_value := Some (buf_store vbuf data)\<rparr>, c)))"

definition read_slot_key ::
  "('c \<Rightarrow> size_t \<Rightarrow> size_t \<Rightarrow> (KvStoreResult \<times> uint8_t list) \<times> 'c) \<Rightarrow> size_t \<Rightarrow>
   size_t \<Rightarrow> read_bufs \<Rightarrow> 'c \<Rightarrow> KvStoreResult \<times> read_bufs \<times> 'c" where
  "read_slot_key rd sz pos b c =
    (if pos + KVSTORE_KEY_SIZE_BYTES > sz then (KVSTORE_FAILED, b, c) else
     let ((r, data), c) = rd c pos KVSTORE_KEY_SIZE_BYTES in
     if r \<noteq> KVSTORE_OK then (KVSTORE_FAILED, b, c) else
     let tmp = le_word (take 4 (buf_store (le_bytes 0) data));
         pos = pos + KVSTORE_KEY_SIZE_BYTES in
     if ucast tmp > the (rb_key_size b) \<and> rb_key b \<noteq> None then (KVSTORE_FAILED, b, c) else
     let b = b\<lparr>rb_key_size := Some (ucast tmp)\<rparr> in
     if pos + ucast tmp > sz then (KVSTORE_FAILED, b, c) else
     case rb_key b of
       None \<Rightarrow> read_slot_value rd sz (pos + ucast tmp) b c
     | Some kbuf \<Rightarrow>
        (let ((r, data), c) = rd c pos (ucast tmp) in
         if r \<noteq> KVSTORE_OK then (KVSTORE_FAILED, b, c)
         else read_slot_value rd sz (pos + ucast tmp)
                (b\<lparr>rb_key := Some (buf_store kbuf data)\<rparr>) c))"

fun read_slot ::
  "'c KvStore option \<Rightarrow> size_t \<Rightarrow> read_bufs \<Rightarrow> 'c \<Rightarrow> KvStoreResult \<times> read_bufs \<times> 'c" where
  "read_slot None pos b c = (KVSTORE_BAD_ARG, b, c)"
| "read_slot (Some self) pos b c =
    (case get_size (backend self) of None \<Rightarrow> (KVSTORE_BAD_ARG, b, c) | Some gs \<Rightarrow>
    (case read (backend self) of None \<Rightarrow> (KVSTORE_BAD_ARG, b, c) | Some rd \<Rightarrow>
     if rb_key_size b = None \<or> rb_value_size b = None then (KVSTORE_BAD_ARG, b, c) else
     let (size, c) = gs c in
     if pos + KVSTORE_HEADER_SIZE_BYTES > size then (KVSTORE_FAILED, b, c) else
     let ((r, data), c) = rd c pos KVSTORE_HEADER_SIZE_BYTES in
     if r \<noteq> KVSTORE_OK then (KVSTORE_FAILED, b, c) else
     let header = buf_store (replicate 4 0) data;
         pos = pos + KVSTORE_HEADER_SIZE_BYTES in
     if take 4 header \<noteq> KVSTORE_HEADER_MAGIC then (KVSTORE_FAILED, b, c) else
     read_slot_key rd size pos b c))"

section \<open>Store lifecycle and insertion\<close>

text \<open>
  \<open>kvstore_prepare\<close> calls \<open>write_slot\<close> and discards what it returns.
\<close>

fun kvstore_prepare :: "'c KvStore option \<Rightarrow> 'c \<Rightarrow> KvStoreResult \<times> 'c" where
  "kvstore_prepare None c = (KVSTORE_BAD_ARG, c)"
| "kvstore_prepare (Some self) c =
    (case get_size (backend self) of None \<Rightarrow> (KVSTORE_BAD_ARG, c) | Some gs \<Rightarrow>
     let (size, c) = gs c;
         value_size = calculate_value_size size 0;
         (r, c) = write_slot (Some self) 0 None 0 None value_size c in
     (KVSTORE_OK, c))"

text \<open>
  The \<open>while (1)\<close> loop of \<open>kvstore_put\<close>. Its state is \<open>position\<close>,
  \<open>found_key_size\<close> and \<open>found_value_size\<close>; \<open>size\<close> was read before the loop.
  The loop is left by a \<open>return\<close> (\<open>Inl\<close> of the returned code) or by the \<open>break\<close>
  (\<open>Inr\<close> of the position reached). A run that never leaves the loop has no result
  (\<open>None\<close>). Both \<open>write_slot\<close> calls of the split discard what they return.
\<close>

partial_function (option) kvstore_put_loop ::
  "'c KvStore option \<Rightarrow> uint8_t list option \<Rightarrow> size_t \<Rightarrow> uint8_t list option \<Rightarrow> size_t \<Rightarrow>
   size_t \<Rightarrow> size_t \<times> size_t \<times> size_t \<Rightarrow> 'c \<Rightarrow> ((KvStoreResult + size_t) \<times> 'c) option" where
  "kvstore_put_loop self k key_size v value_size sz st c =
    (case st of (position, found_key_size, found_value_size) \<Rightarrow>
     if position \<ge> sz then Some (Inr position, c) else
     case read_slot self position
            \<lparr>rb_key = None, rb_key_size = Some found_key_size,
             rb_value = None, rb_value_size = Some found_value_size\<rparr> c of
       (r, b, c) \<Rightarrow>
     if r \<noteq> KVSTORE_OK then Some (Inl KVSTORE_FAILED, c) else
     let found_key_size = the (rb_key_size b);
         found_value_size = the (rb_value_size b) in
     if found_key_size > 0 then
       kvstore_put_loop self k key_size v value_size sz
         (position + calculate_slot_size found_key_size found_value_size,
          found_key_size, found_value_size) c
     else if calculate_slot_size found_key_size found_value_size
               < calculate_slot_size key_size value_size + calculate_slot_size 0 0 then
       kvstore_put_loop self k key_size v value_size sz
         (position + calculate_slot_size found_key_size found_value_size,
          found_key_size, found_value_size) c
     else
       let remaining_space = calculate_slot_size found_key_size found_value_size
                               - calculate_slot_size key_size value_size;
           slot2_value_size = calculate_value_size remaining_space 0;
           (r1, c) = write_slot self position k key_size v value_size c;
           position = position + calculate_slot_size key_size value_size;
           (r2, c) = write_slot self position None 0 None slot2_value_size c
       in Some (Inl KVSTORE_OK, c))"

declare kvstore_put_loop.simps [code]

fun kvstore_put ::
  "'c KvStore option \<Rightarrow> uint8_t list option \<Rightarrow> size_t \<Rightarrow> uint8_t list option \<Rightarrow> size_t \<Rightarrow>
   'c \<Rightarrow> (KvStoreResult \<times> 'c) option" where
  "kvstore_put None k key_size v value_size c = Some (KVSTORE_BAD_ARG, c)"
| "kvstore_put (Some self) k key_size v value_size c =
    (case get_size (backend self) of None \<Rightarrow> Some (KVSTORE_BAD_ARG, c) | Some gs \<Rightarrow>
     if k = None \<or> key_size = 0 \<or> v = None \<or> value_size = 0
        \<or> key_size > KVSTORE_MAX_KEY_SIZE then Some (KVSTORE_BAD_ARG, c) else
     let (size, c) = gs c in
    (case kvstore_put_loop (Some self) k key_size v value_size size (0, 0, 0) c of
       None \<Rightarrow> None
     | Some (Inl r, c) \<Rightarrow> Some (r, c)
     | Some (Inr position, c) \<Rightarrow>
         (let (r, c) = write_slot (Some self) position k key_size v value_size c in
          if r \<noteq> KVSTORE_OK then Some (KVSTORE_NOT_FOUND, c) else Some (KVSTORE_OK, c))))"

section \<open>Cursor and search\<close>

fun kvstore_advance ::
  "'c KvStore option \<Rightarrow> KvStoreCursor option \<Rightarrow> 'c \<Rightarrow> KvStoreResult \<times> KvStoreCursor option \<times> 'c" where
  "kvstore_advance None cursor c = (KVSTORE_BAD_ARG, cursor, c)"
| "kvstore_advance (Some self) None c = (KVSTORE_BAD_ARG, None, c)"
| "kvstore_advance (Some self) (Some cur) c =
    (case read_slot (Some self) (cursor_position cur)
            \<lparr>rb_key = None, rb_key_size = Some 0, rb_value = None, rb_value_size = Some 0\<rparr> c of
       (r, b, c) \<Rightarrow>
     if r \<noteq> KVSTORE_OK then (KVSTORE_FAILED, Some cur, c) else
     (KVSTORE_OK,
      Some (cur\<lparr>cursor_position :=
              cursor_position cur
                + calculate_slot_size (the (rb_key_size b)) (the (rb_value_size b))\<rparr>),
      c))"

text \<open>
  The \<open>while (1)\<close> loop of \<open>kvstore_search_next\<close>, entered with a cursor that is
  not \<open>NULL\<close>. The local \<open>key\<close> array of \<open>KVSTORE_MAX_KEY_SIZE\<close> bytes is not
  initialised by the source; \<open>memcmp\<close> only looks at its first \<open>key_size\<close> bytes,
  which \<open>read_slot\<close> has stored. What \<open>kvstore_advance\<close> returns is discarded. The
  statement after the loop cannot be reached, so the loop has no branch for it.
\<close>

partial_function (option) kvstore_search_next_loop ::
  "'c KvStore option \<Rightarrow> KvStoreCursor option \<Rightarrow> 'c \<Rightarrow>
   (KvStoreResult \<times> KvStoreCursor option \<times> 'c) option" where
  "kvstore_search_next_loop self cursor c =
    (case cursor of None \<Rightarrow> None | Some cur \<Rightarrow>
     case read_slot self (cursor_position cur)
            \<lparr>rb_key = Some (replicate (unat KVSTORE_MAX_KEY_SIZE) 0),
             rb_key_size = Some KVSTORE_MAX_KEY_SIZE,
             rb_value = None, rb_value_size = Some 0\<rparr> c of
       (r, b, c) \<Rightarrow>
     if r \<noteq> KVSTORE_OK then Some (KVSTORE_FAILED, cursor, c) else
     let key_size = the (rb_key_size b) in
     if key_size \<noteq> cursor_key_size cur then
       (case kvstore_advance self cursor c of
          (r, cursor, c) \<Rightarrow> kvstore_search_next_loop self cursor c)
     else if take (unat key_size) (the (rb_key b)) \<noteq> take (unat key_size) (cursor_key cur) then
       (case kvstore_advance self cursor c of
          (r, cursor, c) \<Rightarrow> kvstore_search_next_loop self cursor c)
     else Some (KVSTORE_OK, cursor, c))"

declare kvstore_search_next_loop.simps [code]

fun kvstore_search_next ::
  "'c KvStore option \<Rightarrow> KvStoreCursor option \<Rightarrow> 'c \<Rightarrow>
   (KvStoreResult \<times> KvStoreCursor option \<times> 'c) option" where
  "kvstore_search_next None cursor c = Some (KVSTORE_BAD_ARG, cursor, c)"
| "kvstore_search_next (Some self) None c = Some (KVSTORE_BAD_ARG, None, c)"
| "kvstore_search_next (Some self) (Some cur) c =
     kvstore_search_next_loop (Some self) (Some cur) c"

fun kvstore_search ::
  "'c KvStore option \<Rightarrow> KvStoreCursor option \<Rightarrow> uint8_t list option \<Rightarrow> size_t \<Rightarrow> 'c \<Rightarrow>
   (KvStoreResult \<times> KvStoreCursor option \<times> 'c) option" where
  "kvstore_search None cursor k key_size c = Some (KVSTORE_BAD_ARG, cursor, c)"
| "kvstore_search (Some self) None k key_size c = Some (KVSTORE_BAD_ARG, None, c)"
| "kvstore_search (Some self) (Some cur) None key_size c = Some (KVSTORE_BAD_ARG, Some cur, c)"
| "kvstore_search (Some self) (Some cur) (Some kb) key_size c =
    (if key_size = 0 \<or> key_size > KVSTORE_MAX_KEY_SIZE then Some (KVSTORE_BAD_ARG, Some cur, c)
     else
       kvstore_search_next (Some self)
         (Some (cur\<lparr>cursor_position := 0, cursor_key_size := key_size,
                    cursor_key := buf_store (cursor_key cur) (take (unat key_size) kb)\<rparr>)) c)"

text \<open>
  \<open>kvstore_get\<close> and \<open>kvstore_get_kv\<close> return what \<open>read_slot\<close> returns, with the
  caller's buffers and length variables as \<open>read_slot\<close> left them.
\<close>

fun kvstore_get ::
  "'c KvStore option \<Rightarrow> KvStoreCursor option \<Rightarrow> uint8_t list option \<Rightarrow> size_t option \<Rightarrow> 'c \<Rightarrow>
   KvStoreResult \<times> uint8_t list option \<times> size_t option \<times> 'c" where
  "kvstore_get (Some self) (Some cur) (Some vbuf) (Some value_size) c =
    (if value_size = 0 then (KVSTORE_BAD_ARG, Some vbuf, Some value_size, c) else
     case read_slot (Some self) (cursor_position cur)
            \<lparr>rb_key = None, rb_key_size = Some 0,
             rb_value = Some vbuf, rb_value_size = Some value_size\<rparr> c of
       (r, b, c) \<Rightarrow> (r, rb_value b, rb_value_size b, c))"
| "kvstore_get self cursor v value_size c = (KVSTORE_BAD_ARG, v, value_size, c)"

fun kvstore_get_kv ::
  "'c KvStore option \<Rightarrow> KvStoreCursor option \<Rightarrow> read_bufs \<Rightarrow> 'c \<Rightarrow>
   KvStoreResult \<times> read_bufs \<times> 'c" where
  "kvstore_get_kv (Some self) (Some cur) b c =
    (if rb_key_size b = None \<or> rb_value_size b = None then (KVSTORE_BAD_ARG, b, c)
     else read_slot (Some self) (cursor_position cur) b c)"
| "kvstore_get_kv self cursor b c = (KVSTORE_BAD_ARG, b, c)"

section \<open>A fixed-size memory backend\<close>

text \<open>
  Modelled from the spec: the backend storage is supplied by the caller and is not part
  of the sources. This is the non-growable backend of the spec's external interfaces: a
  byte array of fixed length, where \<open>read\<close> and \<open>write\<close> fail when the requested range
  is not inside the array and change nothing in that case, \<open>write\<close> stores the first
  \<open>size\<close> bytes of \<open>buf\<close> at \<open>pos\<close>, and \<open>size()\<close> is the length of the array.
\<close>

definition ram_read ::
  "uint8_t list \<Rightarrow> size_t \<Rightarrow> size_t \<Rightarrow> (KvStoreResult \<times> uint8_t list) \<times> uint8_t list" where
  "ram_read mem pos n =
     (if unat pos + unat n \<le> length mem
      then ((KVSTORE_OK, take (unat n) (drop (unat pos) mem)), mem)
      else ((KVSTORE_FAILED, []), mem))"

definition ram_write ::
  "uint8_t list \<Rightarrow> uint8_t list \<Rightarrow> size_t \<Rightarrow> size_t \<Rightarrow> KvStoreResult \<times> uint8_t list" where
  "ram_write mem buf pos n =
     (if unat pos + unat n \<le> length mem
      then (KVSTORE_OK, take (unat pos) mem @ take (unat n) buf @ drop (unat pos + unat n) mem)
      else (KVSTORE_FAILED, mem))"

definition ram_get_size :: "uint8_t list \<Rightarrow> size_t \<times> uint8_t list" where
  "ram_get_size mem = (of_nat (length mem), mem)"

definition ram_backend :: "uint8_t list kvstore_backend" where
  "ram_backend = \<lparr>read = Some ram_read, write = Some ram_write, get_size = Some ram_get_size\<rparr>"

definition ram_store :: "uint8_t list KvStore option" where
  "ram_store = Some \<lparr>backend = ram_backend\<rparr>"

section \<open>The slot layout and the packing invariant\<close>

text \<open>
  The bytes of one slot with key bytes \<open>kb\<close> and value bytes \<open>vb\<close>: magic header,
  key-length field, key bytes, value-length field, value bytes. A free slot has no key
  bytes; its value bytes are the padding it covers.
\<close>

definition slot_bytes :: "uint8_t list \<Rightarrow> uint8_t list \<Rightarrow> uint8_t list" where
  "slot_bytes kb vb =
     KVSTORE_HEADER_MAGIC @ le_bytes (of_nat (length kb)) @ kb
       @ le_bytes (of_nat (length vb)) @ vb"

text \<open>
  Decoding slots one after the other from offset 0: each slot starts with the magic
  header and spans header, key-length field, key bytes, value-length field and value
  bytes; the next slot starts where the previous one ends. The result is the list of
  (key bytes, value bytes) of the slots when the slots end exactly at the end of the
  memory, and \<open>None\<close> when some slot does not start with the header or does not fit.
\<close>

function decode_slots :: "uint8_t list \<Rightarrow> (uint8_t list \<times> uint8_t list) list option" where
  "decode_slots mem =
    (if mem = [] then Some [] else
     if length mem < 12 \<or> take 4 mem \<noteq> KVSTORE_HEADER_MAGIC then None else
     let k = unat (le_word (take 4 (drop 4 mem))) in
     if length mem < 12 + k then None else
     let v = unat (le_word (take 4 (drop (8 + k) mem))) in
     if length mem < 12 + k + v then None else
     map_option (\<lambda>ss. (take k (drop 8 mem), take v (drop (12 + k) mem)) # ss)
       (decode_slots (drop (12 + k + v) mem)))"
  by pat_completeness auto
termination
  by (relation "measure length") auto

definition packing_invariant :: "uint8_t list \<Rightarrow> bool" where
  "packing_invariant mem \<longleftrightarrow> decode_slots mem \<noteq> None"

text \<open>
  A backend whose \<open>read\<close> and \<open>get_size\<close> callbacks leave an observation \<open>obs\<close> of
  its state unchanged. Nothing is asked of \<open>write\<close>.
\<close>

definition reads_preserve :: "('c \<Rightarrow> 'o) \<Rightarrow> 'c kvstore_backend \<Rightarrow> bool" where
  "reads_preserve obs be \<longleftrightarrow>
     (\<forall>rd c pos n. read be = Some rd \<longrightarrow> obs (snd (rd c pos n)) = obs c) \<and>
     (\<forall>gs c. get_size be = Some gs \<longrightarrow> obs (snd (gs c)) = obs c)"

text \<open>The bytes of a sequence of slots, one after the other.\<close>

definition slots_bytes :: "(uint8_t list \<times> uint8_t list) list \<Rightarrow> uint8_t list" where
  "slots_bytes ss = concat (map (\<lambda>(kb, vb). slot_bytes kb vb) ss)"

text \<open>
  A caller that puts the pairs of a list one after the other on the memory backend, each
  with its full length, and gives up at the first \<open>kvstore_put\<close> that does not return
  \<open>KVSTORE_OK\<close>. The result is the memory after the last call.
\<close>

fun put_all :: "uint8_t list \<Rightarrow> (uint8_t list \<times> uint8_t list) list \<Rightarrow> uint8_t list option" where
  "put_all mem [] = Some mem"
| "put_all mem ((kb, vb) # ps) =
     (case kvstore_put ram_store (Some kb) (of_nat (length kb)) (Some vb) (of_nat (length vb)) mem of
        Some (KVSTORE_OK, mem') \<Rightarrow> put_all mem' ps
      | _ \<Rightarrow> None)"

section \<open>Argument checks of \<open>kvstore_put\<close>\<close>

text \<open>
  Claim C9. \<open>kvstore_put\<close> with a \<open>NULL\<close> key, a zero \<open>key_size\<close>, a \<open>NULL\<close> value,
  a zero \<open>value_size\<close> or a \<open>key_size\<close> above \<open>KVSTORE_MAX_KEY_SIZE\<close> returns
  \<open>KVSTORE_BAD_ARG\<close> and the backend state it returns is the one it was given. This
  holds for every backend, also one whose callbacks change the state at each call, so no
  callback has been called.
\<close>

theorem kvstore_put_bad_arg:
  "k = None \<or> key_size = 0 \<or> v = None \<or> value_size = 0 \<or> key_size > KVSTORE_MAX_KEY_SIZE
   \<Longrightarrow> kvstore_put self k key_size v value_size c = Some (KVSTORE_BAD_ARG, c)"
  by (cases self) (auto split: option.splits)

theorem kvstore_put_bad_arg_witness:
  "kvstore_put ram_store (Some []) 0 (Some [98]) 1 [1, 2, 3] = Some (KVSTORE_BAD_ARG, [1, 2, 3])
   \<and> kvstore_put ram_store (Some [97]) 1 (Some []) 0 [1, 2, 3] = Some (KVSTORE_BAD_ARG, [1, 2, 3])
   \<and> kvstore_put ram_store None 1 (Some [98]) 1 [1, 2, 3] = Some (KVSTORE_BAD_ARG, [1, 2, 3])
   \<and> kvstore_put ram_store (Some (replicate 17 97)) 17 (Some [98]) 1 [1, 2, 3]
       = Some (KVSTORE_BAD_ARG, [1, 2, 3])"
  using kvstore_put_bad_arg [of "Some []" 0 "Some [98]" 1 ram_store "[1, 2, 3]"]
        kvstore_put_bad_arg [of "Some [97]" 1 "Some []" 0 ram_store "[1, 2, 3]"]
        kvstore_put_bad_arg [of None 1 "Some [98]" 1 ram_store "[1, 2, 3]"]
        kvstore_put_bad_arg [of "Some (replicate 17 97)" 17 "Some [98]" 1 ram_store "[1, 2, 3]"]
  by (simp add: KVSTORE_MAX_KEY_SIZE_def)

section \<open>The end of the scan in \<open>kvstore_put\<close>\<close>

text \<open>
  Claim C7. When the scan of \<open>kvstore_put\<close> leaves its loop by the \<open>break\<close>, at
  \<open>position\<close>, and \<open>write_slot\<close> rejects the new slot there on its bounds check
  (\<open>position + slot_size\<close> is beyond what \<open>get_size\<close> returns), \<open>kvstore_put\<close> returns
  \<open>KVSTORE_NOT_FOUND\<close>.
\<close>

theorem kvstore_put_capacity_exhausted:
  assumes "get_size (backend self) = Some gs" and "write (backend self) \<noteq> None"
    and "k \<noteq> None" "key_size \<noteq> 0" "v \<noteq> None" "value_size \<noteq> 0"
        "key_size \<le> KVSTORE_MAX_KEY_SIZE"
    and "gs c = (sz, c1)"
    and "kvstore_put_loop (Some self) k key_size v value_size sz (0, 0, 0) c1
           = Some (Inr position, c2)"
    and "gs c2 = (sz2, c3)"
    and "position + calculate_slot_size key_size value_size > sz2"
  shows "kvstore_put (Some self) k key_size v value_size c = Some (KVSTORE_NOT_FOUND, c3)"
  using assms by (auto simp add: Let_def not_less split: option.splits)

theorem kvstore_put_capacity_exhausted_witness:
  "kvstore_put_loop (Some \<lparr>backend = ram_backend\<rparr>) (Some [97]) 1 (Some [98]) 1 12 (0, 0, 0)
     [0xf8, 0x2a, 0x93, 0x11, 0, 0, 0, 0, 0, 0, 0, 0]
     = Some (Inr 12, [0xf8, 0x2a, 0x93, 0x11, 0, 0, 0, 0, 0, 0, 0, 0])
   \<and> (12 :: size_t) + calculate_slot_size 1 1 > 12
   \<and> kvstore_put (Some \<lparr>backend = ram_backend\<rparr>) (Some [97]) 1 (Some [98]) 1
         [0xf8, 0x2a, 0x93, 0x11, 0, 0, 0, 0, 0, 0, 0, 0]
       = Some (KVSTORE_NOT_FOUND, [0xf8, 0x2a, 0x93, 0x11, 0, 0, 0, 0, 0, 0, 0, 0])"
proof -
  let ?m = "[0xf8, 0x2a, 0x93, 0x11, 0, 0, 0, 0, 0, 0, 0, 0] :: uint8_t list"
  have gs: "get_size (backend \<lparr>backend = ram_backend\<rparr>) = Some ram_get_size"
    by (simp add: ram_backend_def)
  have wr: "write (backend \<lparr>backend = ram_backend\<rparr>) \<noteq> None"
    by (simp add: ram_backend_def)
  have sz: "ram_get_size ?m = (12, ?m)"
    by (simp add: ram_get_size_def)
  have loop: "kvstore_put_loop (Some \<lparr>backend = ram_backend\<rparr>) (Some [97]) 1 (Some [98]) 1 12
                (0, 0, 0) ?m = Some (Inr 12, ?m)"
    by code_simp
  have bounds: "(12 :: size_t) + calculate_slot_size 1 1 > 12"
    by code_simp
  have "kvstore_put (Some \<lparr>backend = ram_backend\<rparr>) (Some [97]) 1 (Some [98]) 1 ?m
          = Some (KVSTORE_NOT_FOUND, ?m)"
    by (rule kvstore_put_capacity_exhausted [OF gs wr _ _ _ _ _ sz loop sz bounds])
       (simp_all add: KVSTORE_MAX_KEY_SIZE_def)
  with loop bounds show ?thesis by blast
qed

section \<open>Discarded results of \<open>write_slot\<close>\<close>

text \<open>
  Claim C3, at two inputs. On a 10-byte memory \<open>kvstore_prepare\<close> computes a value
  size that wraps around, \<open>write_slot\<close> fails at the write of the value-length field
  and returns \<open>KVSTORE_FAILED\<close>, and \<open>kvstore_prepare\<close> returns \<open>KVSTORE_OK\<close>. On a
  26-byte prepared store, the split of \<open>kvstore_put\<close> for a 14-byte pair calls
  \<open>write_slot\<close> for a free slot with value size 0, which returns \<open>KVSTORE_BAD_ARG\<close>,
  and \<open>kvstore_put\<close> returns \<open>KVSTORE_OK\<close>.
\<close>

theorem write_slot_failure_discarded:
  "write_slot ram_store 0 None 0 None (calculate_value_size 10 0) (replicate 10 0)
     = (KVSTORE_FAILED, [0xf8, 0x2a, 0x93, 0x11, 0, 0, 0, 0, 0, 0])
   \<and> kvstore_prepare ram_store (replicate 10 0)
     = (KVSTORE_OK, [0xf8, 0x2a, 0x93, 0x11, 0, 0, 0, 0, 0, 0])
   \<and> write_slot ram_store 14 None 0 None 0
        [0xf8, 0x2a, 0x93, 0x11, 1, 0, 0, 0, 97, 1, 0, 0, 0, 98,
         255, 255, 255, 255, 255, 255, 255, 255, 255, 255, 255, 255]
     = (KVSTORE_BAD_ARG,
        [0xf8, 0x2a, 0x93, 0x11, 1, 0, 0, 0, 97, 1, 0, 0, 0, 98,
         255, 255, 255, 255, 255, 255, 255, 255, 255, 255, 255, 255])
   \<and> kvstore_put ram_store (Some [97]) 1 (Some [98]) 1
        [0xf8, 0x2a, 0x93, 0x11, 0, 0, 0, 0, 14, 0, 0, 0, 255, 255,
         255, 255, 255, 255, 255, 255, 255, 255, 255, 255, 255, 255]
     = Some (KVSTORE_OK,
        [0xf8, 0x2a, 0x93, 0x11, 1, 0, 0, 0, 97, 1, 0, 0, 0, 98,
         255, 255, 255, 255, 255, 255, 255, 255, 255, 255, 255, 255])"
  by code_simp

section \<open>The packing invariant at an exact fit\<close>

text \<open>
  Claim C1, at a failing input: a 26-byte memory filled with \<open>0xFF\<close>. After
  \<open>kvstore_prepare\<close> the memory is one free slot and decodes; \<open>kvstore_put\<close> of a
  1-byte key with a 1-byte value (a 14-byte slot) finds the free slot exactly
  \<open>14 + 12\<close> bytes long, writes the pair, does not write the 12-byte free slot after
  it, and returns \<open>KVSTORE_OK\<close>. The memory it leaves does not decode.
\<close>

theorem packing_invariant_lost_at_exact_fit:
  "kvstore_prepare ram_store (replicate 26 0xFF)
     = (KVSTORE_OK,
        [0xf8, 0x2a, 0x93, 0x11, 0, 0, 0, 0, 14, 0, 0, 0, 255, 255,
         255, 255, 255, 255, 255, 255, 255, 255, 255, 255, 255, 255])
   \<and> packing_invariant
        [0xf8, 0x2a, 0x93, 0x11, 0, 0, 0, 0, 14, 0, 0, 0, 255, 255,
         255, 255, 255, 255, 255, 255, 255, 255, 255, 255, 255, 255]
   \<and> kvstore_put ram_store (Some [97]) 1 (Some [98]) 1
        [0xf8, 0x2a, 0x93, 0x11, 0, 0, 0, 0, 14, 0, 0, 0, 255, 255,
         255, 255, 255, 255, 255, 255, 255, 255, 255, 255, 255, 255]
     = Some (KVSTORE_OK,
        [0xf8, 0x2a, 0x93, 0x11, 1, 0, 0, 0, 97, 1, 0, 0, 0, 98,
         255, 255, 255, 255, 255, 255, 255, 255, 255, 255, 255, 255])
   \<and> \<not> packing_invariant
        [0xf8, 0x2a, 0x93, 0x11, 1, 0, 0, 0, 97, 1, 0, 0, 0, 98,
         255, 255, 255, 255, 255, 255, 255, 255, 255, 255, 255, 255]"
  unfolding packing_invariant_def by code_simp

section \<open>The 12-byte backend\<close>

text \<open>
  Claim C5, at a failing input: a 12-byte memory of zero bytes. \<open>kvstore_prepare\<close>
  computes the value size 0, which \<open>write_slot\<close> refuses, so nothing is written and
  \<open>kvstore_prepare\<close> returns \<open>KVSTORE_OK\<close>. \<open>kvstore_put\<close> then finds no header at
  offset 0 and returns \<open>KVSTORE_FAILED\<close>.
\<close>

theorem twelve_byte_backend_put_failed:
  "kvstore_prepare ram_store (replicate 12 0) = (KVSTORE_OK, replicate 12 0)
   \<and> kvstore_put ram_store (Some [97]) 1 (Some [98]) 1 (replicate 12 0)
       = Some (KVSTORE_FAILED, replicate 12 0)"
  by code_simp

section \<open>The read path never writes\<close>

declare read_slot.simps [simp del]
declare write_slot.simps [simp del]

text \<open>
  Every callback is a state transformer, so whatever \<open>read\<close> and \<open>get_size\<close>
  leave unchanged is left unchanged by an operation that calls no other callback.
\<close>

lemma read_slot_value_obs:
  assumes "\<And>c pos n. obs (snd (rd c pos n)) = obs c"
  shows "obs (snd (snd (read_slot_value rd sz pos b c))) = obs c"
  unfolding read_slot_value_def
  by (auto simp add: Let_def split: prod.splits option.splits) (metis assms snd_conv)+

lemma read_slot_key_obs:
  assumes "\<And>c pos n. obs (snd (rd c pos n)) = obs c"
  shows "obs (snd (snd (read_slot_key rd sz pos b c))) = obs c"
  unfolding read_slot_key_def
  by (auto simp add: Let_def read_slot_value_obs [of obs rd, OF assms] split: prod.splits option.splits)
     (metis assms snd_conv)+

lemma read_slot_obs:
  assumes "\<forall>s. self = Some s \<longrightarrow> reads_preserve obs (backend s)"
  shows "obs (snd (snd (read_slot self pos b c))) = obs c"
proof (cases self)
  case None
  then show ?thesis by (simp add: read_slot.simps)
next
  case (Some s)
  with assms have rp: "reads_preserve obs (backend s)" by simp
  show ?thesis
  proof (cases "get_size (backend s)")
    case None
    with Some show ?thesis by (simp add: read_slot.simps)
  next
    case gs: (Some gs)
    show ?thesis
    proof (cases "read (backend s)")
      case None
      with Some gs show ?thesis by (simp add: read_slot.simps)
    next
      case rd: (Some rd)
      have r: "\<And>c pos n. obs (snd (rd c pos n)) = obs c"
        using rp rd by (simp add: reads_preserve_def)
      have g: "\<And>c. obs (snd (gs c)) = obs c"
        using rp gs by (simp add: reads_preserve_def)
      obtain sz c1 where g1: "gs c = (sz, c1)"
        by (cases "gs c") auto
      have o1: "obs c1 = obs c"
        using g [of c] g1 by simp
      obtain r data c2 where r1: "rd c1 pos KVSTORE_HEADER_SIZE_BYTES = ((r, data), c2)"
        by (cases "rd c1 pos KVSTORE_HEADER_SIZE_BYTES") auto
      have o2: "obs c2 = obs c1"
        using r [of c1 pos KVSTORE_HEADER_SIZE_BYTES] r1 by simp
      show ?thesis
        unfolding Some
        using o1 o2 read_slot_key_obs [of obs rd, OF r]
        by (simp add: read_slot.simps gs rd g1 r1 Let_def)
    qed
  qed
qed

lemma kvstore_advance_obs:
  assumes "\<forall>s. self = Some s \<longrightarrow> reads_preserve obs (backend s)"
  shows "obs (snd (snd (kvstore_advance self cursor c))) = obs c"
proof (cases self)
  case None
  then show ?thesis by simp
next
  case (Some s)
  show ?thesis
  proof (cases cursor)
    case None
    with Some show ?thesis by simp
  next
    case cur: (Some cur)
    let ?b = "\<lparr>rb_key = None, rb_key_size = Some 0, rb_value = None, rb_value_size = Some 0\<rparr>"
    obtain r b c1 where rs: "read_slot (Some s) (cursor_position cur) ?b c = (r, b, c1)"
      by (cases "read_slot (Some s) (cursor_position cur) ?b c") auto
    show ?thesis
      using read_slot_obs [OF assms, of "cursor_position cur" ?b c]
      unfolding Some cur by (simp add: rs)
  qed
qed

lemma kvstore_search_next_loop_obs_aux:
  "kvstore_search_next_loop self cursor c = Some y \<Longrightarrow>
   (\<forall>s. self = Some s \<longrightarrow> reads_preserve obs (backend s)) \<longrightarrow> obs (snd (snd y)) = obs c"
proof (induction rule: kvstore_search_next_loop.raw_induct [rotated 1, consumes 1])
  case (1 loop self cursor c y)
  show ?case
  proof
    assume rp: "\<forall>s. self = Some s \<longrightarrow> reads_preserve obs (backend s)"
    from 1(2) obtain cur where cur: "cursor = Some cur"
      by (cases cursor) simp_all
    let ?b = "\<lparr>rb_key = Some (replicate (unat KVSTORE_MAX_KEY_SIZE) 0),
               rb_key_size = Some KVSTORE_MAX_KEY_SIZE,
               rb_value = None, rb_value_size = Some 0\<rparr>"
    obtain r b c1 where rs: "read_slot self (cursor_position cur) ?b c = (r, b, c1)"
      by (cases "read_slot self (cursor_position cur) ?b c") auto
    have o1: "obs c1 = obs c"
      using read_slot_obs [OF rp, of "cursor_position cur" ?b c] rs by simp
    obtain r2 cursor2 c2 where adv: "kvstore_advance self (Some cur) c1 = (r2, cursor2, c2)"
      by (cases "kvstore_advance self (Some cur) c1") auto
    have o2: "obs c2 = obs c1"
      using kvstore_advance_obs [OF rp, of "Some cur" c1] adv by simp
    show "obs (snd (snd y)) = obs c"
      using 1(2) 1(1) [of self cursor2 c2 y] rp o1 o2
      by (auto simp add: cur rs adv Let_def split: if_splits)
  qed
qed

lemma kvstore_search_next_loop_obs:
  assumes "kvstore_search_next_loop self cursor c = Some y"
    and "\<forall>s. self = Some s \<longrightarrow> reads_preserve obs (backend s)"
  shows "obs (snd (snd y)) = obs c"
  using kvstore_search_next_loop_obs_aux [OF assms(1)] assms(2) by blast

lemma kvstore_search_next_obs:
  assumes "kvstore_search_next self cursor c = Some y"
    and "\<forall>s. self = Some s \<longrightarrow> reads_preserve obs (backend s)"
  shows "obs (snd (snd y)) = obs c"
proof (cases self)
  case None
  with assms(1) show ?thesis by auto
next
  case (Some s)
  show ?thesis
  proof (cases cursor)
    case None
    with Some assms(1) show ?thesis by auto
  next
    case cur: (Some cur)
    from assms(1) have "kvstore_search_next_loop self cursor c = Some y"
      unfolding Some cur by simp
    then show ?thesis
      by (rule kvstore_search_next_loop_obs) (rule assms(2))
  qed
qed

lemma kvstore_search_obs:
  assumes "kvstore_search self cursor k key_size c = Some y"
    and "\<forall>s. self = Some s \<longrightarrow> reads_preserve obs (backend s)"
  shows "obs (snd (snd y)) = obs c"
proof (cases "(self, cursor, k, key_size, c)" rule: kvstore_search.cases)
  case (4 s cur kb ks c0)
  show ?thesis
  proof (cases "ks = 0 \<or> ks > KVSTORE_MAX_KEY_SIZE")
    case True
    with 4 assms(1) show ?thesis by auto
  next
    case False
    with 4 assms(1) have "kvstore_search_next self
         (Some (cur\<lparr>cursor_position := 0, cursor_key_size := key_size,
                    cursor_key := buf_store (cursor_key cur) (take (unat key_size) kb)\<rparr>)) c = Some y"
      by (simp del: kvstore_search_next.simps)
    then show ?thesis
      by (rule kvstore_search_next_obs) (rule assms(2))
  qed
qed (use assms(1) in auto)

lemma kvstore_get_obs:
  assumes "\<forall>s. self = Some s \<longrightarrow> reads_preserve obs (backend s)"
  shows "obs (snd (snd (snd (kvstore_get self cursor v value_size c)))) = obs c"
proof (cases "(self, cursor, v, value_size, c)" rule: kvstore_get.cases)
  case (1 s cur vbuf vs c0)
  let ?b = "\<lparr>rb_key = None, rb_key_size = Some 0, rb_value = Some vbuf, rb_value_size = Some vs\<rparr>"
  obtain r b c1 where rs: "read_slot (Some s) (cursor_position cur) ?b c0 = (r, b, c1)"
    by (cases "read_slot (Some s) (cursor_position cur) ?b c0") auto
  show ?thesis
    using read_slot_obs [OF assms, of "cursor_position cur" ?b c] 1
    by (simp add: rs)
qed simp_all

lemma kvstore_get_kv_obs:
  assumes "\<forall>s. self = Some s \<longrightarrow> reads_preserve obs (backend s)"
  shows "obs (snd (snd (kvstore_get_kv self cursor b c))) = obs c"
proof (cases "(self, cursor, b, c)" rule: kvstore_get_kv.cases)
  case (1 s cur b0 c0)
  then show ?thesis
    using read_slot_obs [OF assms, of "cursor_position cur" b c]
    by (simp)
qed simp_all

text \<open>
  Claim C10. \<open>kvstore_search\<close>, \<open>kvstore_search_next\<close>, \<open>kvstore_advance\<close>,
  \<open>kvstore_get\<close> and \<open>kvstore_get_kv\<close> never call the backend's \<open>write\<close>: for every
  store, cursor and arguments, and whatever \<open>write\<close> would do, an observation of the
  backend state that \<open>read\<close> and \<open>get_size\<close> preserve is the same after the call as
  before it, for every result code. For a backend whose \<open>read\<close> and \<open>get_size\<close> do
  not change its contents, the contents after the call are the contents before.
\<close>

theorem read_path_write_free:
  assumes "\<forall>s. self = Some s \<longrightarrow> reads_preserve obs (backend s)"
  shows "(\<forall>y. kvstore_search self cursor k key_size c = Some y \<longrightarrow> obs (snd (snd y)) = obs c)
       \<and> (\<forall>y. kvstore_search_next self cursor c = Some y \<longrightarrow> obs (snd (snd y)) = obs c)
       \<and> obs (snd (snd (kvstore_advance self cursor c))) = obs c
       \<and> obs (snd (snd (snd (kvstore_get self cursor v value_size c)))) = obs c
       \<and> obs (snd (snd (kvstore_get_kv self cursor b c))) = obs c"
proof (intro conjI allI impI)
  fix y assume "kvstore_search self cursor k key_size c = Some y"
  then show "obs (snd (snd y)) = obs c"
    by (rule kvstore_search_obs) (rule assms)
next
  fix y assume "kvstore_search_next self cursor c = Some y"
  then show "obs (snd (snd y)) = obs c"
    by (rule kvstore_search_next_obs) (rule assms)
next
  show "obs (snd (snd (kvstore_advance self cursor c))) = obs c"
    by (rule kvstore_advance_obs) (rule assms)
next
  show "obs (snd (snd (snd (kvstore_get self cursor v value_size c)))) = obs c"
    by (rule kvstore_get_obs) (rule assms)
next
  show "obs (snd (snd (kvstore_get_kv self cursor b c))) = obs c"
    by (rule kvstore_get_kv_obs) (rule assms)
qed

theorem read_path_write_free_witness:
  "reads_preserve (\<lambda>m. m) ram_backend
   \<and> kvstore_search ram_store
         (Some \<lparr>cursor_position = 0, cursor_key = 97 # replicate 15 0, cursor_key_size = 1\<rparr>)
         (Some [97]) 1
         [0xf8, 0x2a, 0x93, 0x11, 1, 0, 0, 0, 97, 1, 0, 0, 0, 98,
          0xf8, 0x2a, 0x93, 0x11, 0, 0, 0, 0, 2, 0, 0, 0, 0, 0]
       = Some (KVSTORE_OK,
               Some \<lparr>cursor_position = 0, cursor_key = 97 # replicate 15 0, cursor_key_size = 1\<rparr>,
               [0xf8, 0x2a, 0x93, 0x11, 1, 0, 0, 0, 97, 1, 0, 0, 0, 98,
                0xf8, 0x2a, 0x93, 0x11, 0, 0, 0, 0, 2, 0, 0, 0, 0, 0])
   \<and> snd (snd (kvstore_advance ram_store
         (Some \<lparr>cursor_position = 0, cursor_key = 97 # replicate 15 0, cursor_key_size = 1\<rparr>)
         [0xf8, 0x2a, 0x93, 0x11, 1, 0, 0, 0, 97, 1, 0, 0, 0, 98,
          0xf8, 0x2a, 0x93, 0x11, 0, 0, 0, 0, 2, 0, 0, 0, 0, 0]))
       = [0xf8, 0x2a, 0x93, 0x11, 1, 0, 0, 0, 97, 1, 0, 0, 0, 98,
          0xf8, 0x2a, 0x93, 0x11, 0, 0, 0, 0, 2, 0, 0, 0, 0, 0]
   \<and> snd (snd (snd (kvstore_get ram_store
         (Some \<lparr>cursor_position = 0, cursor_key = 97 # replicate 15 0, cursor_key_size = 1\<rparr>)
         (Some [0, 0]) (Some 2)
         [0xf8, 0x2a, 0x93, 0x11, 1, 0, 0, 0, 97, 1, 0, 0, 0, 98,
          0xf8, 0x2a, 0x93, 0x11, 0, 0, 0, 0, 2, 0, 0, 0, 0, 0])))
       = [0xf8, 0x2a, 0x93, 0x11, 1, 0, 0, 0, 97, 1, 0, 0, 0, 98,
          0xf8, 0x2a, 0x93, 0x11, 0, 0, 0, 0, 2, 0, 0, 0, 0, 0]"
proof -
  let ?m = "[0xf8, 0x2a, 0x93, 0x11, 1, 0, 0, 0, 97, 1, 0, 0, 0, 98,
             0xf8, 0x2a, 0x93, 0x11, 0, 0, 0, 0, 2, 0, 0, 0, 0, 0] :: uint8_t list"
  let ?c1 = "\<lparr>cursor_position = 0, cursor_key = 97 # replicate 15 0, cursor_key_size = 1\<rparr>"
  have rp: "reads_preserve (\<lambda>m. m) ram_backend"
    by (simp add: reads_preserve_def ram_backend_def ram_read_def ram_get_size_def)
  then have hyp: "\<forall>s. ram_store = Some s \<longrightarrow> reads_preserve (\<lambda>m. m) (backend s)"
    by (auto simp add: ram_store_def)
  have s: "kvstore_search ram_store (Some ?c1) (Some [97]) 1 ?m = Some (KVSTORE_OK, Some ?c1, ?m)"
    by code_simp
  note wf = read_path_write_free [OF hyp, where cursor = "Some ?c1" and c = ?m
      and v = "Some [0, 0]" and value_size = "Some 2"]
  from wf have a: "snd (snd (kvstore_advance ram_store (Some ?c1) ?m)) = ?m"
    by blast
  from wf have g: "snd (snd (snd (kvstore_get ram_store (Some ?c1) (Some [0, 0]) (Some 2) ?m))) = ?m"
    by blast
  from rp s a g show ?thesis
    by blast
qed

section \<open>Reading a slot from the memory backend\<close>

lemmas w2n = word_less_nat_alt word_le_nat_alt unat_word_ariths unat_of_nat

lemma le_word_le_bytes [simp]: "le_word (le_bytes w) = w"
  unfolding le_bytes_def
  apply simp
  apply (rule bit_word_eqI)
  apply (auto simp add: bit_simps)
  subgoal for n by (cases "24 \<le> n") auto
  done

lemma length_le_bytes [simp]: "length (le_bytes w) = 4"
  by (simp add: le_bytes_def)

lemma take_buf_store [simp]: "length d = n \<Longrightarrow> take n (buf_store x d) = d"
  by (simp add: buf_store_def)

lemma ram_read4:
  "ram_read mem pos 4 =
     (if unat pos + 4 \<le> length mem then ((KVSTORE_OK, take 4 (drop (unat pos) mem)), mem)
      else ((KVSTORE_FAILED, []), mem))"
  by (simp add: ram_read_def)

lemma read_slot_ram_no_header:
  assumes "length mem < 2^32"
    and "\<not> (unat pos + 8 \<le> length mem \<and> take 4 (drop (unat pos) mem) = KVSTORE_HEADER_MAGIC)"
  shows "fst (read_slot ram_store pos b mem) \<noteq> KVSTORE_OK
         \<and> snd (read_slot ram_store pos b mem) = (b, mem)"
proof (cases "rb_key_size b = None \<or> rb_value_size b = None")
  case True
  then show ?thesis
    by (auto simp add: read_slot.simps ram_store_def ram_backend_def)
next
  case False
  show ?thesis
  proof (cases "unat pos + 4 \<le> length mem")
    case h4: False
    then show ?thesis
      using False
      by (auto simp add: read_slot.simps ram_store_def ram_backend_def ram_get_size_def Let_def
          KVSTORE_HEADER_SIZE_BYTES_def ram_read4)
  next
    case h4: True
    then have p4: "unat (pos + 4) = unat pos + 4"
      using assms(1) by (simp add: w2n)
    have d4: "length (take 4 (drop (unat pos) mem)) = 4"
      using h4 by simp
    show ?thesis
    proof (cases "take 4 (drop (unat pos) mem) = KVSTORE_HEADER_MAGIC")
      case False
      then show ?thesis
        using \<open>\<not> (rb_key_size b = None \<or> rb_value_size b = None)\<close> h4 d4
        by (auto simp add: read_slot.simps ram_store_def ram_backend_def ram_get_size_def Let_def
            KVSTORE_HEADER_SIZE_BYTES_def ram_read4)
    next
      case True
      with assms(2) have h8: "\<not> unat pos + 8 \<le> length mem" by simp
      have k: "read_slot_key ram_read (of_nat (length mem)) (pos + 4) b mem = (KVSTORE_FAILED, b, mem)"
        unfolding read_slot_key_def KVSTORE_KEY_SIZE_BYTES_def
        using h8 p4 by (auto simp add: ram_read4)
      show ?thesis
        using \<open>\<not> (rb_key_size b = None \<or> rb_value_size b = None)\<close> h4 d4 True k
        by (auto simp add: read_slot.simps ram_store_def ram_backend_def ram_get_size_def Let_def
            KVSTORE_HEADER_SIZE_BYTES_def ram_read4)
    qed
  qed
qed

lemma read_slot_ram_header:
  assumes "length mem < 2^32"
    and "rb_key_size b \<noteq> None" "rb_value_size b \<noteq> None"
    and "unat pos + 8 \<le> length mem"
    and "take 4 (drop (unat pos) mem) = KVSTORE_HEADER_MAGIC"
  shows "read_slot ram_store pos b mem
           = read_slot_key ram_read (of_nat (length mem)) (pos + 4) b mem"
proof -
  have d4: "length (take 4 (drop (unat pos) mem)) = 4"
    using assms(4) by simp
  have c: "\<not> (of_nat (length mem) :: size_t) < pos + 4"
    using assms(1,4) by (simp add: w2n)
  show ?thesis
    using assms(2,3,4,5) d4 c
    by (auto simp add: read_slot.simps ram_store_def ram_backend_def ram_get_size_def Let_def
        KVSTORE_HEADER_SIZE_BYTES_def ram_read4)
qed

text \<open>
  What a failing \<open>read_slot\<close> leaves in the caller's variables, stage by stage, for any
  \<open>read\<close> callback.
\<close>

lemma read_slot_value_fail:
  assumes "read_slot_value rd sz p b c = (r, b', c')" and "r \<noteq> KVSTORE_OK"
    and "rd c p 4 = ((r4, vl), c4)"
  shows "r = KVSTORE_FAILED \<and> rb_key_size b' = rb_key_size b \<and> rb_key b' = rb_key b
       \<and> rb_value b' = rb_value b
       \<and> rb_value_size b' =
           (if p + 4 > sz \<or> r4 \<noteq> KVSTORE_OK
               \<or> (le_word (take 4 (buf_store (le_bytes 0) vl)) > the (rb_value_size b)
                   \<and> rb_value b \<noteq> None)
            then rb_value_size b
            else Some (le_word (take 4 (buf_store (le_bytes 0) vl))))"
  using assms unfolding read_slot_value_def KVSTORE_VALUE_SIZE_BYTES_def
  by (auto simp add: Let_def split: if_splits option.splits prod.splits)

lemma read_slot_key_fail:
  assumes "read_slot_key rd sz p b c = (r, b', c')" and "r \<noteq> KVSTORE_OK"
    and "rd c p 4 = ((r2, kl), c2)"
    and "k = le_word (take 4 (buf_store (le_bytes 0) kl))"
    and "rd c2 (p + 4) k = ((r3, kd), c3)"
    and "rd (if rb_key b = None then c2 else c3) (p + 4 + k) 4 = ((r4, vl), c4)"
    and "v = le_word (take 4 (buf_store (le_bytes 0) vl))"
  shows "r = KVSTORE_FAILED \<and>
     (if p + 4 > sz \<or> r2 \<noteq> KVSTORE_OK \<or> (k > the (rb_key_size b) \<and> rb_key b \<noteq> None)
      then b' = b
      else rb_key_size b' = Some k \<and> rb_value b' = rb_value b
         \<and> rb_value_size b' =
             (if p + 4 + k > sz \<or> (rb_key b \<noteq> None \<and> r3 \<noteq> KVSTORE_OK)
                 \<or> p + 4 + k + 4 > sz \<or> r4 \<noteq> KVSTORE_OK
                 \<or> (v > the (rb_value_size b) \<and> rb_value b \<noteq> None)
              then rb_value_size b else Some v))"
proof (cases "p + 4 > sz \<or> r2 \<noteq> KVSTORE_OK \<or> (k > the (rb_key_size b) \<and> rb_key b \<noteq> None)")
  case True
  then show ?thesis
    using assms(1,3,4) unfolding read_slot_key_def KVSTORE_KEY_SIZE_BYTES_def
    by (auto simp add: Let_def split: if_splits)
next
  case False
  show ?thesis
  proof (cases "rb_key b")
    case None
    have rv: "p + 4 + k > sz \<or>
        read_slot_value rd sz (p + 4 + k) (b\<lparr>rb_key_size := Some k\<rparr>) c2 = (r, b', c')"
       and e: "p + 4 + k > sz \<longrightarrow> r = KVSTORE_FAILED \<and> b' = b\<lparr>rb_key_size := Some k\<rparr>"
      using assms(1,3,4) False None unfolding read_slot_key_def KVSTORE_KEY_SIZE_BYTES_def
      by (auto simp add: Let_def split: if_splits)
    show ?thesis
    proof (cases "p + 4 + k > sz")
      case True
      with e False None show ?thesis by auto
    next
      case nov: False
      with rv have rv': "read_slot_value rd sz (p + 4 + k) (b\<lparr>rb_key_size := Some k\<rparr>) c2 = (r, b', c')"
        by simp
      from assms(6) None have r4: "rd c2 (p + 4 + k) 4 = ((r4, vl), c4)"
        by simp
      show ?thesis
        using read_slot_value_fail [OF rv' assms(2) r4] False nov None assms(7)
        by auto
    qed
  next
    case (Some kbuf)
    have rv: "p + 4 + k > sz \<or> r3 \<noteq> KVSTORE_OK \<or>
        read_slot_value rd sz (p + 4 + k)
          (b\<lparr>rb_key_size := Some k, rb_key := Some (buf_store kbuf kd)\<rparr>) c3 = (r, b', c')"
       and e: "p + 4 + k > sz \<or> r3 \<noteq> KVSTORE_OK
                \<longrightarrow> r = KVSTORE_FAILED \<and> b' = b\<lparr>rb_key_size := Some k\<rparr>"
      using assms(1,3,4,5) False Some unfolding read_slot_key_def KVSTORE_KEY_SIZE_BYTES_def
      by (auto simp add: Let_def split: if_splits)
    show ?thesis
    proof (cases "p + 4 + k > sz \<or> r3 \<noteq> KVSTORE_OK")
      case True
      with e False Some show ?thesis by auto
    next
      case nov: False
      with rv have rv': "read_slot_value rd sz (p + 4 + k)
          (b\<lparr>rb_key_size := Some k, rb_key := Some (buf_store kbuf kd)\<rparr>) c3 = (r, b', c')"
        by simp
      from assms(6) Some have r4: "rd c3 (p + 4 + k) 4 = ((r4, vl), c4)"
        by simp
      show ?thesis
        using read_slot_value_fail [OF rv' assms(2) r4] False nov Some assms(7)
        by auto
    qed
  qed
qed

text \<open>
  Claim C4 as stated fails: \<open>read_slot\<close> stores the decoded key length into
  \<open>*key_size\<close> before it checks that the key bytes lie inside the backend. On an
  8-byte memory holding a header and the key length 5, the call fails and \<open>*key_size\<close>,
  0 before the call, is 5 after it.
\<close>

theorem read_slot_partial_length_counterexample:
  "fst (read_slot ram_store 0
          \<lparr>rb_key = None, rb_key_size = Some 0, rb_value = None, rb_value_size = Some 0\<rparr>
          [0xf8, 0x2a, 0x93, 0x11, 5, 0, 0, 0]) = KVSTORE_FAILED
   \<and> rb_key_size (fst (snd (read_slot ram_store 0
          \<lparr>rb_key = None, rb_key_size = Some 0, rb_value = None, rb_value_size = Some 0\<rparr>
          [0xf8, 0x2a, 0x93, 0x11, 5, 0, 0, 0]))) = Some 5"
  by code_simp

text \<open>
  Claim C4, amended. For every backend, whenever \<open>read_slot\<close> returns a failure:

  \<^item> a \<open>NULL\<close> store, callback or length pointer gives \<open>KVSTORE_BAD_ARG\<close> with every
    output as before the call;
  \<^item> otherwise the result is \<open>KVSTORE_FAILED\<close>. With \<open>sz\<close> what \<open>get_size\<close> returned,
    \<open>r1\<close>, \<open>r2\<close>, \<open>r3\<close>, \<open>r4\<close> what the reads of the header, the key-length field, the
    key bytes and the value-length field return, \<open>k\<close> and \<open>v\<close> the decoded lengths, and
    \<open>ks\<close> and \<open>vs\<close> the values of \<open>*key_size\<close> and \<open>*value_size\<close> before the call:
    if the header overruns the backend, its read fails, it does not match, the key-length
    field overruns, its read fails, or the key buffer is too small for \<open>k\<close>, every output
    is as before the call;
  \<^item> on every later failure \<open>*key_size\<close> is \<open>k\<close> and the value buffer is as before the
    call; \<open>*value_size\<close> is still \<open>vs\<close> if the key bytes overrun, the key read fails, the
    value-length field overruns, its read fails, or the value buffer is too small for \<open>v\<close>,
    and it is \<open>v\<close> if the value bytes overrun or the value read fails.
\<close>

theorem read_slot_failure_lengths:
  assumes "read_slot self pos b c = (r, b', c')" and "r \<noteq> KVSTORE_OK"
  shows "(self = None \<or> rb_key_size b = None \<or> rb_value_size b = None
            \<or> (\<exists>s. self = Some s \<and> (get_size (backend s) = None \<or> read (backend s) = None))
          \<longrightarrow> r = KVSTORE_BAD_ARG \<and> b' = b)
       \<and> (self = Some s \<and> get_size (backend s) = Some gs \<and> read (backend s) = Some rd
            \<and> rb_key_size b = Some ks \<and> rb_value_size b = Some vs
            \<and> gs c = (sz, c0)
            \<and> rd c0 pos 4 = ((r1, hdr), c1)
            \<and> rd c1 (pos + 4) 4 = ((r2, kl), c2)
            \<and> k = le_word (take 4 (buf_store (le_bytes 0) kl))
            \<and> rd c2 (pos + 4 + 4) k = ((r3, kd), c3)
            \<and> rd (if rb_key b = None then c2 else c3) (pos + 4 + 4 + k) 4 = ((r4, vl), c4)
            \<and> v = le_word (take 4 (buf_store (le_bytes 0) vl))
          \<longrightarrow> r = KVSTORE_FAILED
            \<and> (if pos + 4 > sz \<or> r1 \<noteq> KVSTORE_OK
                   \<or> take 4 (buf_store (replicate 4 0) hdr) \<noteq> KVSTORE_HEADER_MAGIC
                   \<or> pos + 4 + 4 > sz \<or> r2 \<noteq> KVSTORE_OK
                   \<or> (k > ks \<and> rb_key b \<noteq> None)
                then b' = b
                else rb_key_size b' = Some k \<and> rb_value b' = rb_value b
                   \<and> rb_value_size b' =
                       (if pos + 4 + 4 + k > sz \<or> (rb_key b \<noteq> None \<and> r3 \<noteq> KVSTORE_OK)
                           \<or> pos + 4 + 4 + k + 4 > sz \<or> r4 \<noteq> KVSTORE_OK
                           \<or> (v > vs \<and> rb_value b \<noteq> None)
                        then Some vs else Some v)))"
proof (intro conjI impI)
  assume "self = None \<or> rb_key_size b = None \<or> rb_value_size b = None
            \<or> (\<exists>s. self = Some s \<and> (get_size (backend s) = None \<or> read (backend s) = None))"
  then show "r = KVSTORE_BAD_ARG" and "b' = b"
    using assms(1) by (cases self; auto simp add: read_slot.simps split: option.splits)+
next
  assume a: "self = Some s \<and> get_size (backend s) = Some gs \<and> read (backend s) = Some rd
            \<and> rb_key_size b = Some ks \<and> rb_value_size b = Some vs
            \<and> gs c = (sz, c0)
            \<and> rd c0 pos 4 = ((r1, hdr), c1)
            \<and> rd c1 (pos + 4) 4 = ((r2, kl), c2)
            \<and> k = le_word (take 4 (buf_store (le_bytes 0) kl))
            \<and> rd c2 (pos + 4 + 4) k = ((r3, kd), c3)
            \<and> rd (if rb_key b = None then c2 else c3) (pos + 4 + 4 + k) 4 = ((r4, vl), c4)
            \<and> v = le_word (take 4 (buf_store (le_bytes 0) vl))"
  let ?early = "pos + 4 > sz \<or> r1 \<noteq> KVSTORE_OK
                   \<or> take 4 (buf_store (replicate 4 0) hdr) \<noteq> KVSTORE_HEADER_MAGIC"
  have rs: "read_slot (Some s) pos b c =
      (if ?early then (KVSTORE_FAILED, b, if pos + 4 > sz then c0 else c1)
       else read_slot_key rd sz (pos + 4) b c1)"
    using a by (simp add: read_slot.simps KVSTORE_HEADER_SIZE_BYTES_def)
  have res: "r = KVSTORE_FAILED \<and>
            (if pos + 4 > sz \<or> r1 \<noteq> KVSTORE_OK
                   \<or> take 4 (buf_store (replicate 4 0) hdr) \<noteq> KVSTORE_HEADER_MAGIC
                   \<or> pos + 4 + 4 > sz \<or> r2 \<noteq> KVSTORE_OK
                   \<or> (k > ks \<and> rb_key b \<noteq> None)
                then b' = b
                else rb_key_size b' = Some k \<and> rb_value b' = rb_value b
                   \<and> rb_value_size b' =
                       (if pos + 4 + 4 + k > sz \<or> (rb_key b \<noteq> None \<and> r3 \<noteq> KVSTORE_OK)
                           \<or> pos + 4 + 4 + k + 4 > sz \<or> r4 \<noteq> KVSTORE_OK
                           \<or> (v > vs \<and> rb_value b \<noteq> None)
                        then Some vs else Some v))"
  proof (cases ?early)
    case True
    with rs assms(1) a show ?thesis
      by (auto split: if_splits)
  next
    case False
    with rs assms(1) a have rk: "read_slot_key rd sz (pos + 4) b c1 = (r, b', c')"
      by simp
    from a have a2: "rd c1 (pos + 4) 4 = ((r2, kl), c2)"
      and ak: "k = le_word (take 4 (buf_store (le_bytes 0) kl))"
      and a3: "rd c2 (pos + 4 + 4) k = ((r3, kd), c3)"
      and a4: "rd (if rb_key b = None then c2 else c3) (pos + 4 + 4 + k) 4 = ((r4, vl), c4)"
      and av: "v = le_word (take 4 (buf_store (le_bytes 0) vl))"
      and ksb: "rb_key_size b = Some ks" and vsb: "rb_value_size b = Some vs"
      by blast+
    note kf = read_slot_key_fail [OF rk assms(2) a2 ak a3 a4 av, unfolded ksb vsb option.sel]
    show ?thesis
      using kf False by (auto split: if_splits)
  qed
  from res show "r = KVSTORE_FAILED" ..
  from res show "if pos + 4 > sz \<or> r1 \<noteq> KVSTORE_OK
                   \<or> take 4 (buf_store (replicate 4 0) hdr) \<noteq> KVSTORE_HEADER_MAGIC
                   \<or> pos + 4 + 4 > sz \<or> r2 \<noteq> KVSTORE_OK
                   \<or> (k > ks \<and> rb_key b \<noteq> None)
                then b' = b
                else rb_key_size b' = Some k \<and> rb_value b' = rb_value b
                   \<and> rb_value_size b' =
                       (if pos + 4 + 4 + k > sz \<or> (rb_key b \<noteq> None \<and> r3 \<noteq> KVSTORE_OK)
                           \<or> pos + 4 + 4 + k + 4 > sz \<or> r4 \<noteq> KVSTORE_OK
                           \<or> (v > vs \<and> rb_value b \<noteq> None)
                        then Some vs else Some v)" ..
qed

theorem read_slot_failure_lengths_witness:
  "(let res = read_slot ram_store 0
       \<lparr>rb_key = None, rb_key_size = Some 0, rb_value = None, rb_value_size = Some 0\<rparr>
       [0xf8, 0x2a, 0x93, 0x11, 5, 0, 0, 0]
    in fst res = KVSTORE_FAILED \<and> rb_key_size (fst (snd res)) = Some 5
       \<and> rb_value_size (fst (snd res)) = Some 0)
   \<and> (let res = read_slot ram_store 0
       \<lparr>rb_key = None, rb_key_size = Some 0, rb_value = Some [0], rb_value_size = Some 1\<rparr>
       [0xf8, 0x2a, 0x93, 0x11, 1, 0, 0, 0, 97, 2, 0, 0, 0, 98, 99]
    in fst res = KVSTORE_FAILED \<and> rb_key_size (fst (snd res)) = Some 1
       \<and> rb_value_size (fst (snd res)) = Some 1)
   \<and> (let res = read_slot ram_store 0
       \<lparr>rb_key = None, rb_key_size = Some 0,
        rb_value = Some (replicate 16 0), rb_value_size = Some 16\<rparr>
       [0xf8, 0x2a, 0x93, 0x11, 1, 0, 0, 0, 97, 9, 0, 0, 0, 98]
    in fst res = KVSTORE_FAILED \<and> rb_key_size (fst (snd res)) = Some 1
       \<and> rb_value_size (fst (snd res)) = Some 9)
   \<and> (let res = read_slot ram_store 0
       \<lparr>rb_key = Some [0, 0], rb_key_size = Some 2, rb_value = None, rb_value_size = Some 0\<rparr>
       [0xf8, 0x2a, 0x93, 0x11, 5, 0, 0, 0, 1, 2, 3, 4, 5, 1, 0, 0, 0, 9]
    in fst res = KVSTORE_FAILED
       \<and> fst (snd res)
           = \<lparr>rb_key = Some [0, 0], rb_key_size = Some 2, rb_value = None, rb_value_size = Some 0\<rparr>)"
proof -
  let ?s = "\<lparr>backend = ram_backend\<rparr> :: uint8_t list KvStore"
  have be: "get_size ram_backend = Some ram_get_size" "read ram_backend = Some ram_read"
    by (simp_all add: ram_backend_def)
  have w: "le_word (take 4 (buf_store (le_bytes 0) [5, 0, 0, 0])) = 5"
    "le_word (take 4 (buf_store (le_bytes 0) [1, 0, 0, 0])) = 1"
    "le_word (take 4 (buf_store (le_bytes 0) [2, 0, 0, 0])) = 2"
    "le_word (take 4 (buf_store (le_bytes 0) [9, 0, 0, 0])) = 9"
    "le_word (take 4 (buf_store (le_bytes 0) [])) = 0"
    by code_simp+
  have hd: "take 4 (buf_store (replicate 4 0) [0xf8, 0x2a, 0x93, 0x11]) = KVSTORE_HEADER_MAGIC"
    by (simp add: buf_store_def KVSTORE_HEADER_MAGIC_def)

  let ?m1 = "[0xf8, 0x2a, 0x93, 0x11, 5, 0, 0, 0] :: uint8_t list"
  let ?b1 = "\<lparr>rb_key = None, rb_key_size = Some 0, rb_value = None, rb_value_size = Some 0\<rparr>"
  let ?r1 = "read_slot (Some ?s) 0 ?b1 ?m1"
  have f1: "fst ?r1 \<noteq> KVSTORE_OK"
    by code_simp
  have c1: "fst ?r1 = KVSTORE_FAILED \<and> rb_key_size (fst (snd ?r1)) = Some 5
            \<and> rb_value_size (fst (snd ?r1)) = Some 0"
    using read_slot_failure_lengths [where self = "Some ?s" and pos = 0 and b = ?b1 and c = ?m1
        and r = "fst ?r1" and b' = "fst (snd ?r1)" and c' = "snd (snd ?r1)"
        and s = ?s and gs = ram_get_size and rd = ram_read and ks = 0 and vs = 0
        and sz = 8 and ?c0.0 = ?m1
        and ?r1.0 = KVSTORE_OK and hdr = "[0xf8, 0x2a, 0x93, 0x11]" and ?c1.0 = ?m1
        and ?r2.0 = KVSTORE_OK and kl = "[5, 0, 0, 0]" and ?c2.0 = ?m1 and k = 5
        and ?r3.0 = KVSTORE_FAILED and kd = "[]" and ?c3.0 = ?m1
        and ?r4.0 = KVSTORE_FAILED and vl = "[]" and ?c4.0 = ?m1 and v = 0, OF _ f1]
    by (simp add: be w hd ram_get_size_def ram_read_def)

  let ?m2 = "[0xf8, 0x2a, 0x93, 0x11, 1, 0, 0, 0, 97, 2, 0, 0, 0, 98, 99] :: uint8_t list"
  let ?b2 = "\<lparr>rb_key = None, rb_key_size = Some 0, rb_value = Some [0], rb_value_size = Some 1\<rparr>"
  let ?r2 = "read_slot (Some ?s) 0 ?b2 ?m2"
  have f2: "fst ?r2 \<noteq> KVSTORE_OK"
    by code_simp
  have c2: "fst ?r2 = KVSTORE_FAILED \<and> rb_key_size (fst (snd ?r2)) = Some 1 \<and> rb_value_size (fst (snd ?r2)) = Some 1"
    using read_slot_failure_lengths [where self = "Some ?s" and pos = 0 and b = ?b2 and c = ?m2
        and r = "fst ?r2" and b' = "fst (snd ?r2)" and c' = "snd (snd ?r2)"
        and s = ?s and gs = ram_get_size and rd = ram_read and ks = 0 and vs = 1
        and sz = 15 and ?c0.0 = ?m2
        and ?r1.0 = KVSTORE_OK and hdr = "[0xf8, 0x2a, 0x93, 0x11]" and ?c1.0 = ?m2
        and ?r2.0 = KVSTORE_OK and kl = "[1, 0, 0, 0]" and ?c2.0 = ?m2 and k = 1
        and ?r3.0 = KVSTORE_OK and kd = "[97]" and ?c3.0 = ?m2
        and ?r4.0 = KVSTORE_OK and vl = "[2, 0, 0, 0]" and ?c4.0 = ?m2 and v = 2, OF _ f2]
    by (simp add: be w hd ram_get_size_def ram_read_def)

  let ?m3 = "[0xf8, 0x2a, 0x93, 0x11, 1, 0, 0, 0, 97, 9, 0, 0, 0, 98] :: uint8_t list"
  let ?b3 = "\<lparr>rb_key = None, rb_key_size = Some 0, rb_value = Some (replicate 16 0), rb_value_size = Some 16\<rparr>"
  let ?r3 = "read_slot (Some ?s) 0 ?b3 ?m3"
  have f3: "fst ?r3 \<noteq> KVSTORE_OK"
    by code_simp
  have c3: "fst ?r3 = KVSTORE_FAILED \<and> rb_key_size (fst (snd ?r3)) = Some 1 \<and> rb_value_size (fst (snd ?r3)) = Some 9"
    using read_slot_failure_lengths [where self = "Some ?s" and pos = 0 and b = ?b3 and c = ?m3
        and r = "fst ?r3" and b' = "fst (snd ?r3)" and c' = "snd (snd ?r3)"
        and s = ?s and gs = ram_get_size and rd = ram_read and ks = 0 and vs = 16
        and sz = 14 and ?c0.0 = ?m3
        and ?r1.0 = KVSTORE_OK and hdr = "[0xf8, 0x2a, 0x93, 0x11]" and ?c1.0 = ?m3
        and ?r2.0 = KVSTORE_OK and kl = "[1, 0, 0, 0]" and ?c2.0 = ?m3 and k = 1
        and ?r3.0 = KVSTORE_OK and kd = "[97]" and ?c3.0 = ?m3
        and ?r4.0 = KVSTORE_OK and vl = "[9, 0, 0, 0]" and ?c4.0 = ?m3 and v = 9, OF _ f3]
    by (simp add: be w hd ram_get_size_def ram_read_def)

  let ?m4 = "[0xf8, 0x2a, 0x93, 0x11, 5, 0, 0, 0, 1, 2, 3, 4, 5, 1, 0, 0, 0, 9] :: uint8_t list"
  let ?b4 = "\<lparr>rb_key = Some [0, 0], rb_key_size = Some 2, rb_value = None, rb_value_size = Some 0\<rparr>"
  let ?r4 = "read_slot (Some ?s) 0 ?b4 ?m4"
  have f4: "fst ?r4 \<noteq> KVSTORE_OK"
    by code_simp
  have c4: "fst ?r4 = KVSTORE_FAILED \<and> fst (snd ?r4) = ?b4"
    using read_slot_failure_lengths [where self = "Some ?s" and pos = 0 and b = ?b4 and c = ?m4
        and r = "fst ?r4" and b' = "fst (snd ?r4)" and c' = "snd (snd ?r4)"
        and s = ?s and gs = ram_get_size and rd = ram_read and ks = 2 and vs = 0
        and sz = 18 and ?c0.0 = ?m4
        and ?r1.0 = KVSTORE_OK and hdr = "[0xf8, 0x2a, 0x93, 0x11]" and ?c1.0 = ?m4
        and ?r2.0 = KVSTORE_OK and kl = "[5, 0, 0, 0]" and ?c2.0 = ?m4 and k = 5
        and ?r3.0 = KVSTORE_OK and kd = "[1, 2, 3, 4, 5]" and ?c3.0 = ?m4
        and ?r4.0 = KVSTORE_OK and vl = "[1, 0, 0, 0]" and ?c4.0 = ?m4 and v = 1, OF _ f4]
    by (simp add: be w hd ram_get_size_def ram_read_def)

  show ?thesis
    unfolding ram_store_def Let_def using c1 c2 c3 c4 by (intro conjI) blast+
qed

section \<open>Slots in the memory backend\<close>

lemma slots_bytes_simps [simp]:
  "slots_bytes [] = []"
  "slots_bytes ((kb, vb) # ss) = slot_bytes kb vb @ slots_bytes ss"
  "slots_bytes (ss @ ts) = slots_bytes ss @ slots_bytes ts"
  by (simp_all add: slots_bytes_def)

lemma length_slot_bytes [simp]: "length (slot_bytes kb vb) = 12 + length kb + length vb"
  by (simp add: slot_bytes_def KVSTORE_HEADER_MAGIC_def)

lemma ram_read_app:
  "length A = unat pos \<Longrightarrow> length X = unat n \<Longrightarrow>
   ram_read (A @ X @ B) pos n = ((KVSTORE_OK, X), A @ X @ B)"
  by (simp add: ram_read_def)

lemma rb_upd_same [simp]:
  "rb_key b = None \<Longrightarrow> b\<lparr>rb_key := None\<rparr> = b"
  "rb_value b = None \<Longrightarrow> b\<lparr>rb_value := None\<rparr> = b"
  by simp_all

lemma read_slot_value_ram:
  assumes "mem = A @ le_bytes (of_nat (length vb)) @ vb @ B" "length mem < 2^32"
    and "unat pos = length A" "unat sz = length mem"
  shows "read_slot_value ram_read sz pos b mem
         = (if rb_value b \<noteq> None \<and> of_nat (length vb) > the (rb_value_size b)
            then (KVSTORE_FAILED, b, mem)
            else (KVSTORE_OK,
                  b\<lparr>rb_value_size := Some (of_nat (length vb)),
                    rb_value := map_option (\<lambda>buf. buf_store buf vb) (rb_value b)\<rparr>, mem))"
proof -
  have l: "length A + 4 + length vb + length B < 2^32" using assms by simp
  have r1: "ram_read mem pos 4 = ((KVSTORE_OK, le_bytes (of_nat (length vb))), mem)"
    unfolding assms(1) using l assms(3) by (intro ram_read_app) (simp_all add: unat_of_nat)
  have r2: "ram_read mem (pos + 4) (of_nat (length vb)) = ((KVSTORE_OK, vb), mem)"
    using l assms(3) by (simp add: ram_read_def assms(1) w2n)
  have c1: "\<not> (pos + 4) > sz"
    using l assms(3,4) by (simp add: assms(1) w2n)
  have c2: "\<not> (pos + 4 + of_nat (length vb)) > sz"
    using l assms(3,4) by (simp add: assms(1) w2n)
  show ?thesis
    unfolding read_slot_value_def KVSTORE_VALUE_SIZE_BYTES_def
    using c1 c2 by (cases "rb_value b") (simp_all add: r1 r2 Let_def)
qed

lemma read_slot_key_ram:
  assumes "mem = A @ le_bytes (of_nat (length kb)) @ kb @ R" "length mem < 2^32"
    and "unat pos = length A" "unat sz = length mem"
  shows "read_slot_key ram_read sz pos b mem
         = (if rb_key b \<noteq> None \<and> of_nat (length kb) > the (rb_key_size b)
            then (KVSTORE_FAILED, b, mem)
            else read_slot_value ram_read sz (pos + 4 + of_nat (length kb))
                  (b\<lparr>rb_key_size := Some (of_nat (length kb)),
                    rb_key := map_option (\<lambda>buf. buf_store buf kb) (rb_key b)\<rparr>) mem)"
proof -
  have l: "length A + 4 + length kb + length R < 2^32" using assms by simp
  have r1: "ram_read mem pos 4 = ((KVSTORE_OK, le_bytes (of_nat (length kb))), mem)"
    unfolding assms(1) using l assms(3) by (intro ram_read_app) (simp_all add: unat_of_nat)
  have r2: "ram_read mem (pos + 4) (of_nat (length kb)) = ((KVSTORE_OK, kb), mem)"
    using l assms(3) by (simp add: ram_read_def assms(1) w2n)
  have c1: "\<not> (pos + 4) > sz"
    using l assms(3,4) by (simp add: assms(1) w2n)
  have c2: "\<not> (pos + 4 + of_nat (length kb)) > sz"
    using l assms(3,4) by (simp add: assms(1) w2n)
  show ?thesis
    unfolding read_slot_key_def KVSTORE_KEY_SIZE_BYTES_def
    using c1 c2 by (cases "rb_key b") (simp_all add: r1 r2 Let_def)
qed

lemma read_slot_ram:
  assumes "mem = A @ slot_bytes kb vb @ B" "length mem < 2^32"
    and "unat pos = length A"
    and "rb_key_size b \<noteq> None" "rb_value_size b \<noteq> None"
  shows "read_slot ram_store pos b mem
         = (if rb_key b \<noteq> None \<and> of_nat (length kb) > the (rb_key_size b)
            then (KVSTORE_FAILED, b, mem)
            else if rb_value b \<noteq> None \<and> of_nat (length vb) > the (rb_value_size b)
            then (KVSTORE_FAILED,
                  b\<lparr>rb_key_size := Some (of_nat (length kb)),
                    rb_key := map_option (\<lambda>buf. buf_store buf kb) (rb_key b)\<rparr>, mem)
            else (KVSTORE_OK,
                  \<lparr>rb_key = map_option (\<lambda>buf. buf_store buf kb) (rb_key b),
                   rb_key_size = Some (of_nat (length kb)),
                   rb_value = map_option (\<lambda>buf. buf_store buf vb) (rb_value b),
                   rb_value_size = Some (of_nat (length vb))\<rparr>, mem))"
proof -
  have l: "length A + 12 + length kb + length vb + length B < 2^32"
    using assms by simp
  have sz: "unat (of_nat (length mem) :: size_t) = length mem"
    using assms(2) by (simp add: unat_of_nat)
  have hd: "unat pos + 8 \<le> length mem" "take 4 (drop (unat pos) mem) = KVSTORE_HEADER_MAGIC"
    using assms(3) by (simp_all add: assms(1) slot_bytes_def KVSTORE_HEADER_MAGIC_def)
  have m1: "mem = (A @ KVSTORE_HEADER_MAGIC) @ le_bytes (of_nat (length kb)) @ kb
                    @ (le_bytes (of_nat (length vb)) @ vb @ B)"
    by (simp add: assms(1) slot_bytes_def)
  have m2: "mem = (A @ KVSTORE_HEADER_MAGIC @ le_bytes (of_nat (length kb)) @ kb)
                    @ le_bytes (of_nat (length vb)) @ vb @ B"
    by (simp add: assms(1) slot_bytes_def)
  have p1: "unat (pos + 4) = length (A @ KVSTORE_HEADER_MAGIC)"
    using l assms(3) by (simp add: w2n KVSTORE_HEADER_MAGIC_def)
  have p2: "unat (pos + 4 + 4 + of_nat (length kb))
              = length (A @ KVSTORE_HEADER_MAGIC @ le_bytes (of_nat (length kb)) @ kb)"
    using l assms(3) by (simp add: w2n KVSTORE_HEADER_MAGIC_def)
  note h = read_slot_ram_header [OF assms(2,4,5) hd]
  note k = read_slot_key_ram [OF m1 assms(2) p1 sz]
  note v = read_slot_value_ram [OF m2 assms(2) p2 sz]
  show ?thesis
    unfolding h k v by (cases b) simp
qed

subsection \<open>Decoded memory is a sequence of slots\<close>

declare decode_slots.simps [simp del]

lemma le_bytes_le_word: "length xs = 4 \<Longrightarrow> le_bytes (le_word xs) = xs"
proof -
  assume "length xs = 4"
  then obtain a b c d where xs: "xs = [a, b, c, d]"
    by (cases xs; cases "tl xs"; cases "tl (tl xs)"; cases "tl (tl (tl xs))") auto
  show ?thesis
    unfolding xs le_bytes_def
    apply simp
    apply (intro conjI bit_word_eqI)
    apply (auto simp add: bit_simps dest: bit_imp_le_length)
    done
qed

lemma take_slot_split:
  "take (12 + k + v) mem
     = take 4 mem @ take 4 (drop 4 mem) @ take k (drop 8 mem)
         @ take 4 (drop (8 + k) mem) @ take v (drop (12 + k) mem)"
proof -
  have "take (12 + k + v) mem = take (12 + k) mem @ take v (drop (12 + k) mem)"
    by (rule take_add)
  moreover have "take (12 + k) mem = take (8 + k) mem @ take 4 (drop (8 + k) mem)"
    using take_add [of "8 + k" 4 mem] by (simp add: add.commute)
  moreover have "take (8 + k) mem = take 8 mem @ take k (drop 8 mem)"
    by (rule take_add)
  moreover have "take 8 mem = take 4 mem @ take 4 (drop 4 mem)"
    using take_add [of 4 4 mem] by simp
  ultimately show ?thesis by simp
qed

lemma decode_slots_unfold:
  assumes "decode_slots mem = Some ss" "mem \<noteq> []"
  defines "k \<equiv> unat (le_word (take 4 (drop 4 mem)))"
  defines "v \<equiv> unat (le_word (take 4 (drop (8 + k) mem)))"
  shows "12 + k + v \<le> length mem \<and> take 4 mem = KVSTORE_HEADER_MAGIC
         \<and> (\<exists>ss'. decode_slots (drop (12 + k + v) mem) = Some ss'
                \<and> ss = (take k (drop 8 mem), take v (drop (12 + k) mem)) # ss')"
proof -
  have e: "decode_slots mem =
    (if length mem < 12 \<or> take 4 mem \<noteq> KVSTORE_HEADER_MAGIC then None else
     if length mem < 12 + k then None else
     if length mem < 12 + k + v then None else
     map_option (\<lambda>ss. (take k (drop 8 mem), take v (drop (12 + k) mem)) # ss)
       (decode_slots (drop (12 + k + v) mem)))"
    using assms(2) by (subst decode_slots.simps) (simp add: k_def v_def Let_def)
  show ?thesis
    using assms(1) unfolding e by (auto split: if_splits)
qed

lemma decode_slots_bytes:
  "decode_slots mem = Some ss \<Longrightarrow> mem = slots_bytes ss"
proof (induction mem arbitrary: ss rule: decode_slots.induct)
  case (1 mem)
  show ?case
  proof (cases "mem = []")
    case True
    with "1.prems" show ?thesis by (simp add: decode_slots.simps)
  next
    case False
    define k where "k = unat (le_word (take 4 (drop 4 mem)))"
    define v where "v = unat (le_word (take 4 (drop (8 + k) mem)))"
    from decode_slots_unfold [OF "1.prems" False, folded k_def, folded v_def]
    obtain ss' where c3: "12 + k + v \<le> length mem"
      and hd: "take 4 mem = KVSTORE_HEADER_MAGIC"
      and ss': "decode_slots (drop (12 + k + v) mem) = Some ss'"
      and ss: "ss = (take k (drop 8 mem), take v (drop (12 + k) mem)) # ss'"
      by blast
    have ih: "drop (12 + k + v) mem = slots_bytes ss'"
      using c3 hd by (intro "1.IH" [OF False _ k_def _ v_def _ ss']) auto
    have lk: "length (take k (drop 8 mem)) = k" and lv: "length (take v (drop (12 + k) mem)) = v"
      using c3 by simp_all
    have fk: "le_bytes (of_nat k) = take 4 (drop 4 mem)"
      unfolding k_def using c3 by (simp add: le_bytes_le_word)
    have fv: "le_bytes (of_nat v) = take 4 (drop (8 + k) mem)"
      unfolding v_def using c3 by (simp add: le_bytes_le_word)
    have "mem = take (12 + k + v) mem @ drop (12 + k + v) mem"
      by simp
    also have "take (12 + k + v) mem = slot_bytes (take k (drop 8 mem)) (take v (drop (12 + k) mem))"
      unfolding take_slot_split slot_bytes_def lk lv fk fv using hd by simp
    finally show ?thesis
      unfolding ss ih by simp
  qed
qed

lemma decode_slots_lengths:
  "decode_slots mem = Some ss \<Longrightarrow> (kb, vb) \<in> set ss \<Longrightarrow> length kb < 2^32 \<and> length vb < 2^32"
proof (induction mem arbitrary: ss rule: decode_slots.induct)
  case (1 mem)
  show ?case
  proof (cases "mem = []")
    case True
    with "1.prems" show ?thesis by (simp add: decode_slots.simps)
  next
    case False
    define k where "k = unat (le_word (take 4 (drop 4 mem)))"
    define v where "v = unat (le_word (take 4 (drop (8 + k) mem)))"
    from decode_slots_unfold [OF "1.prems"(1) False, folded k_def, folded v_def]
    obtain ss' where c3: "12 + k + v \<le> length mem"
      and hd: "take 4 mem = KVSTORE_HEADER_MAGIC"
      and ss': "decode_slots (drop (12 + k + v) mem) = Some ss'"
      and ss: "ss = (take k (drop 8 mem), take v (drop (12 + k) mem)) # ss'"
      by blast
    have u: "unat x < 2^32" for x :: "32 word"
      using unsigned_less [of x] by simp
    have kb: "k < 2^32" "v < 2^32"
      unfolding k_def v_def by (rule u)+
    show ?thesis
    proof (cases "(kb, vb) \<in> set ss'")
      case True
      with c3 hd show ?thesis
        by (intro "1.IH" [OF False _ k_def _ v_def _ ss']) auto
    next
      case False
      with "1.prems"(2) ss have "kb = take k (drop 8 mem)" "vb = take v (drop (12 + k) mem)"
        by auto
      with kb show ?thesis by (simp add: min_def)
    qed
  qed
qed

section \<open>Searching the memory backend\<close>

lemma kvstore_advance_ram:
  assumes "mem = A @ slot_bytes kb vb @ B" "length mem < 2^32"
    and "cursor_position cur = of_nat (length A)"
  shows "kvstore_advance ram_store (Some cur) mem
           = (KVSTORE_OK,
              Some (cur\<lparr>cursor_position := of_nat (length (A @ slot_bytes kb vb))\<rparr>), mem)"
proof -
  have p: "unat (cursor_position cur) = length A"
    using assms by (simp add: unat_of_nat)
  show ?thesis
    using read_slot_ram [OF assms(1,2) p, of
        "\<lparr>rb_key = None, rb_key_size = Some 0, rb_value = None, rb_value_size = Some 0\<rparr>"]
    by (simp add: ram_store_def assms(3) calculate_slot_size_def KVSTORE_HEADER_SIZE_BYTES_def
        KVSTORE_KEY_SIZE_BYTES_def KVSTORE_VALUE_SIZE_BYTES_def)
qed

lemma search_read_ram:
  assumes "mem = A @ slot_bytes kb vb @ B" "length mem < 2^32"
    and "cursor_position cur = of_nat (length A)"
  shows "read_slot ram_store (cursor_position cur)
            \<lparr>rb_key = Some (replicate (unat KVSTORE_MAX_KEY_SIZE) 0),
             rb_key_size = Some KVSTORE_MAX_KEY_SIZE,
             rb_value = None, rb_value_size = Some 0\<rparr> mem
       = (if length kb > 16
          then (KVSTORE_FAILED,
                \<lparr>rb_key = Some (replicate (unat KVSTORE_MAX_KEY_SIZE) 0),
                 rb_key_size = Some KVSTORE_MAX_KEY_SIZE,
                 rb_value = None, rb_value_size = Some 0\<rparr>, mem)
          else (KVSTORE_OK,
                \<lparr>rb_key = Some (kb @ replicate (16 - length kb) 0),
                 rb_key_size = Some (of_nat (length kb)),
                 rb_value = None, rb_value_size = Some (of_nat (length vb))\<rparr>, mem))"
proof -
  have p: "unat (cursor_position cur) = length A"
    using assms by (simp add: unat_of_nat)
  have l: "length kb < 2^32"
    using assms(1,2) by simp
  have c: "(KVSTORE_MAX_KEY_SIZE < of_nat (length kb)) = (16 < length kb)"
    using l by (simp add: KVSTORE_MAX_KEY_SIZE_def w2n)
  show ?thesis
    using read_slot_ram [OF assms(1,2) p, of
        "\<lparr>rb_key = Some (replicate (unat KVSTORE_MAX_KEY_SIZE) 0),
             rb_key_size = Some KVSTORE_MAX_KEY_SIZE,
             rb_value = None, rb_value_size = Some 0\<rparr>"]
    by (simp add: c buf_store_def) (simp add: KVSTORE_MAX_KEY_SIZE_def)
qed

lemma search_loop_skip:
  assumes "mem = A @ slot_bytes kb vb @ B" "length mem < 2^32"
    and "cursor_position cur = of_nat (length A)"
    and "length kb \<le> 16"
    and "cursor_key_size cur \<noteq> of_nat (length kb) \<or> take (length kb) (cursor_key cur) \<noteq> kb"
  shows "kvstore_search_next_loop ram_store (Some cur) mem
           = kvstore_search_next_loop ram_store
               (Some (cur\<lparr>cursor_position := of_nat (length (A @ slot_bytes kb vb))\<rparr>)) mem"
proof -
  have l: "unat (of_nat (length kb) :: size_t) = length kb"
    using assms(4) by (simp add: unat_of_nat)
  show ?thesis
  proof (cases "cursor_key_size cur = of_nat (length kb)")
    case True
    with assms(5) have ne: "take (length kb) (cursor_key cur) \<noteq> kb"
      by simp
    show ?thesis
      apply (subst kvstore_search_next_loop.simps)
      using assms(4) ne
      apply (simp add: search_read_ram [OF assms(1,2,3)] kvstore_advance_ram [OF assms(1,2,3)] l
          True Let_def del: kvstore_advance.simps)
      done
  next
    case False
    then have ne: "of_nat (length kb) \<noteq> cursor_key_size cur"
      by auto
    show ?thesis
      apply (subst kvstore_search_next_loop.simps)
      using assms(4) ne
      apply (simp add: search_read_ram [OF assms(1,2,3)] kvstore_advance_ram [OF assms(1,2,3)] l
          Let_def del: kvstore_advance.simps)
      done
  qed
qed

lemma search_loop_match:
  assumes "mem = A @ slot_bytes kb vb @ B" "length mem < 2^32"
    and "cursor_position cur = of_nat (length A)"
    and "length kb \<le> 16"
    and "cursor_key_size cur = of_nat (length kb)" "take (length kb) (cursor_key cur) = kb"
  shows "kvstore_search_next_loop ram_store (Some cur) mem = Some (KVSTORE_OK, Some cur, mem)"
proof -
  have l: "unat (of_nat (length kb) :: size_t) = length kb"
    using assms(4) by (simp add: unat_of_nat)
  show ?thesis
    apply (subst kvstore_search_next_loop.simps)
    using assms(4,5,6)
    apply (simp add: search_read_ram [OF assms(1,2,3)] l Let_def del: kvstore_advance.simps)
    done
qed

lemma search_loop_long_key:
  assumes "mem = A @ slot_bytes kb vb @ B" "length mem < 2^32"
    and "cursor_position cur = of_nat (length A)"
    and "length kb > 16"
  shows "kvstore_search_next_loop ram_store (Some cur) mem = Some (KVSTORE_FAILED, Some cur, mem)"
  apply (subst kvstore_search_next_loop.simps)
  using assms(4)
  apply (simp add: search_read_ram [OF assms(1,2,3)] del: kvstore_advance.simps)
  done

lemma search_loop_end:
  assumes "length mem < 2^32"
    and "cursor_position cur = of_nat (length mem)"
  shows "kvstore_search_next_loop ram_store (Some cur) mem = Some (KVSTORE_FAILED, Some cur, mem)"
proof -
  have p: "unat (cursor_position cur) = length mem"
    using assms by (simp add: unat_of_nat)
  then have n: "\<not> (unat (cursor_position cur) + 8 \<le> length mem
               \<and> take 4 (drop (unat (cursor_position cur)) mem) = KVSTORE_HEADER_MAGIC)"
    by simp
  let ?b = "\<lparr>rb_key = Some (replicate (unat KVSTORE_MAX_KEY_SIZE) 0),
             rb_key_size = Some KVSTORE_MAX_KEY_SIZE,
             rb_value = None, rb_value_size = Some 0\<rparr>"
  obtain r where r: "read_slot ram_store (cursor_position cur) ?b mem = (r, ?b, mem)"
      and f: "r \<noteq> KVSTORE_OK"
    using read_slot_ram_no_header [OF assms(1) n, of ?b]
    by (cases "read_slot ram_store (cursor_position cur) ?b mem") auto
  show ?thesis
    apply (subst kvstore_search_next_loop.simps)
    using f
    apply (simp add: r del: kvstore_advance.simps)
    done
qed

lemma search_loop_scan:
  assumes "mem = A @ slots_bytes pre @ R" "length mem < 2^32"
    and "cursor_position cur = of_nat (length A)"
    and "\<forall>(kb, vb) \<in> set pre. length kb \<le> 16
           \<and> (cursor_key_size cur \<noteq> of_nat (length kb) \<or> take (length kb) (cursor_key cur) \<noteq> kb)"
  shows "kvstore_search_next_loop ram_store (Some cur) mem
           = kvstore_search_next_loop ram_store
               (Some (cur\<lparr>cursor_position := of_nat (length (A @ slots_bytes pre))\<rparr>)) mem"
  using assms
proof (induction pre arbitrary: A cur)
  case Nil
  then have "cur\<lparr>cursor_position := of_nat (length A)\<rparr> = cur"
    by (cases cur) simp
  then show ?case by simp
next
  case (Cons s pre)
  obtain kb vb where s: "s = (kb, vb)" by (cases s)
  let ?cur = "cur\<lparr>cursor_position := of_nat (length (A @ slot_bytes kb vb))\<rparr>"
  have m: "mem = A @ slot_bytes kb vb @ (slots_bytes pre @ R)"
    using Cons.prems(1) by (simp add: s)
  have m': "mem = (A @ slot_bytes kb vb) @ slots_bytes pre @ R"
    using Cons.prems(1) by (simp add: s)
  have "kvstore_search_next_loop ram_store (Some cur) mem
          = kvstore_search_next_loop ram_store (Some ?cur) mem"
    using Cons.prems(4) by (intro search_loop_skip [OF m Cons.prems(2,3)]) (auto simp add: s)
  also have "\<dots> = kvstore_search_next_loop ram_store
               (Some (?cur\<lparr>cursor_position := of_nat (length ((A @ slot_bytes kb vb) @ slots_bytes pre))\<rparr>)) mem"
    using Cons.prems(4) by (intro Cons.IH [OF m' Cons.prems(2)]) (auto simp add: s)
  finally show ?case by (simp add: s add.assoc)
qed

lemma search_loop_absent:
  assumes "mem = A @ slots_bytes ss" "length mem < 2^32"
    and "cursor_position cur = of_nat (length A)"
    and "\<forall>(kb, vb) \<in> set ss.
           cursor_key_size cur \<noteq> of_nat (length kb) \<or> take (length kb) (cursor_key cur) \<noteq> kb"
  shows "kvstore_search_next_loop ram_store (Some cur) mem
           = Some (KVSTORE_FAILED,
               Some (cur\<lparr>cursor_position :=
                 of_nat (length (A @ slots_bytes (takeWhile (\<lambda>(kb, vb). length kb \<le> 16) ss)))\<rparr>),
               mem)"
  using assms
proof (induction ss arbitrary: A cur)
  case Nil
  have "cur\<lparr>cursor_position := of_nat (length A)\<rparr> = cur"
    using Nil.prems(3) by (cases cur) simp
  then show ?case
    using search_loop_end [of mem cur] Nil.prems by simp
next
  case (Cons s ss)
  obtain kb vb where s: "s = (kb, vb)" by (cases s)
  let ?cur = "cur\<lparr>cursor_position := of_nat (length (A @ slot_bytes kb vb))\<rparr>"
  have m: "mem = A @ slot_bytes kb vb @ slots_bytes ss"
    using Cons.prems(1) by (simp add: s)
  have m': "mem = (A @ slot_bytes kb vb) @ slots_bytes ss"
    using Cons.prems(1) by (simp add: s)
  show ?case
  proof (cases "length kb > 16")
    case True
    have "cur\<lparr>cursor_position := of_nat (length A)\<rparr> = cur"
      using Cons.prems(3) by (cases cur) simp
    then show ?thesis
      using search_loop_long_key [OF m Cons.prems(2,3) True] True by (simp add: s)
  next
    case False
    have "kvstore_search_next_loop ram_store (Some cur) mem
            = kvstore_search_next_loop ram_store (Some ?cur) mem"
      using Cons.prems(4) False by (intro search_loop_skip [OF m Cons.prems(2,3)]) (auto simp add: s)
    also have "\<dots> = Some (KVSTORE_FAILED,
               Some (?cur\<lparr>cursor_position :=
                 of_nat (length ((A @ slot_bytes kb vb)
                    @ slots_bytes (takeWhile (\<lambda>(kb, vb). length kb \<le> 16) ss)))\<rparr>),
               mem)"
      using Cons.prems(4) by (intro Cons.IH [OF m' Cons.prems(2)]) (auto simp add: s)
    finally show ?thesis
      using False by (simp add: s add.assoc)
  qed
qed

lemma scan_all_short:
  assumes "\<forall>(kb, vb) \<in> set ss. length kb \<le> n"
  shows "takeWhile (\<lambda>(kb, vb). length kb \<le> n) ss = ss"
  using assms by (intro takeWhile_eq_all_conv [THEN iffD2]) auto

text \<open>
  Claim C6 as stated fails on a store that holds a key longer than
  \<open>KVSTORE_MAX_KEY_SIZE\<close>. The 44-byte memory below satisfies the packing invariant: a
  slot with a 17-byte key, then a free slot. The search for the absent key \<open>z\<close> fails
  at once, at offset 0, because the 16-byte key buffer of \<open>kvstore_search_next\<close> is too
  small for the stored key; the cursor stays at 0, while the backend boundary is at 44.
\<close>

theorem search_long_key_counterexample:
  "packing_invariant
     ([0xf8, 0x2a, 0x93, 0x11, 17, 0, 0, 0] @ replicate 17 97 @ [1, 0, 0, 0, 98,
       0xf8, 0x2a, 0x93, 0x11, 0, 0, 0, 0, 2, 0, 0, 0, 0, 0])
   \<and> replicate 17 97 \<noteq> [122 :: uint8_t]
   \<and> kvstore_search ram_store
         (Some \<lparr>cursor_position = 0, cursor_key = replicate 16 0, cursor_key_size = 0\<rparr>)
         (Some [122]) 1
         ([0xf8, 0x2a, 0x93, 0x11, 17, 0, 0, 0] @ replicate 17 97 @ [1, 0, 0, 0, 98,
           0xf8, 0x2a, 0x93, 0x11, 0, 0, 0, 0, 2, 0, 0, 0, 0, 0])
       = Some (KVSTORE_FAILED,
           Some \<lparr>cursor_position = 0, cursor_key = 122 # replicate 15 0, cursor_key_size = 1\<rparr>,
           [0xf8, 0x2a, 0x93, 0x11, 17, 0, 0, 0] @ replicate 17 97 @ [1, 0, 0, 0, 98,
            0xf8, 0x2a, 0x93, 0x11, 0, 0, 0, 0, 2, 0, 0, 0, 0, 0])
   \<and> fst (ram_get_size
         ([0xf8, 0x2a, 0x93, 0x11, 17, 0, 0, 0] @ replicate 17 97 @ [1, 0, 0, 0, 98,
           0xf8, 0x2a, 0x93, 0x11, 0, 0, 0, 0, 2, 0, 0, 0, 0, 0])) = 44"
  unfolding packing_invariant_def by code_simp

text \<open>
  Claim C6, amended. On the memory backend, for every store that satisfies the packing
  invariant (its memory decodes into the slots \<open>ss\<close>), \<open>kvstore_search\<close> for a key of 1
  to \<open>KVSTORE_MAX_KEY_SIZE\<close> bytes that is the key of no slot returns, so the scan ends;
  what it returns is \<open>KVSTORE_FAILED\<close>, not \<open>KVSTORE_NOT_FOUND\<close>, with the memory
  unchanged and the cursor holding the searched key and parked where the scan stopped:
  at the first slot whose key is longer than \<open>KVSTORE_MAX_KEY_SIZE\<close> bytes, and, when
  no stored key is that long, at the backend boundary, the offset \<open>size()\<close>.
\<close>

theorem kvstore_search_absent_key:
  assumes "decode_slots mem = Some ss" and "length mem < 2^32"
    and "key_size \<noteq> 0" "key_size \<le> KVSTORE_MAX_KEY_SIZE" "unat key_size \<le> length kbuf"
    and "take (unat key_size) kbuf \<notin> fst ` set ss"
  shows "kvstore_search ram_store (Some cur) (Some kbuf) key_size mem
           = Some (KVSTORE_FAILED,
               Some \<lparr>cursor_position =
                       of_nat (length (slots_bytes
                         (takeWhile (\<lambda>(kb, vb). length kb \<le> unat KVSTORE_MAX_KEY_SIZE) ss))),
                     cursor_key = buf_store (cursor_key cur) (take (unat key_size) kbuf),
                     cursor_key_size = key_size\<rparr>,
               mem)
       \<and> ((\<forall>(kb, vb) \<in> set ss. length kb \<le> unat KVSTORE_MAX_KEY_SIZE)
            \<longrightarrow> kvstore_search ram_store (Some cur) (Some kbuf) key_size mem
                  = Some (KVSTORE_FAILED,
                      Some \<lparr>cursor_position = of_nat (length mem),
                            cursor_key = buf_store (cursor_key cur) (take (unat key_size) kbuf),
                            cursor_key_size = key_size\<rparr>,
                      mem))"
proof -
  let ?K = "take (unat key_size) kbuf"
  let ?cur = "cur\<lparr>cursor_position := 0, cursor_key_size := key_size,
                    cursor_key := buf_store (cursor_key cur) ?K\<rparr>"
  have m: "mem = [] @ slots_bytes ss"
    using decode_slots_bytes [OF assms(1)] by simp
  have lK: "length ?K = unat key_size"
    using assms(5) by simp
  have nomatch: "\<forall>(kb, vb) \<in> set ss.
      cursor_key_size ?cur \<noteq> of_nat (length kb) \<or> take (length kb) (cursor_key ?cur) \<noteq> kb"
  proof (clarify)
    fix kb vb
    assume in_ss: "(kb, vb) \<in> set ss"
      and sz: "cursor_key_size ?cur = of_nat (length kb)"
      and "take (length kb) (cursor_key ?cur) = kb"
    have "length kb < 2^32"
      using decode_slots_lengths [OF assms(1) in_ss] by simp
    with sz have "unat key_size = length kb"
      by (simp add: unat_of_nat)
    with \<open>take (length kb) (cursor_key ?cur) = kb\<close> lK have "kb = ?K"
      by (simp add: buf_store_def)
    with in_ss assms(6) show False
      by force
  qed
  have mx: "unat KVSTORE_MAX_KEY_SIZE = 16"
    by (simp add: KVSTORE_MAX_KEY_SIZE_def)
  have "kvstore_search_next_loop ram_store (Some ?cur) mem
          = Some (KVSTORE_FAILED,
               Some (?cur\<lparr>cursor_position :=
                 of_nat (length ([] @ slots_bytes (takeWhile (\<lambda>(kb, vb). length kb \<le> 16) ss)))\<rparr>),
               mem)"
    by (rule search_loop_absent [OF m assms(2) _ nomatch]) simp
  then have res: "kvstore_search ram_store (Some cur) (Some kbuf) key_size mem
           = Some (KVSTORE_FAILED,
               Some \<lparr>cursor_position =
                       of_nat (length (slots_bytes
                         (takeWhile (\<lambda>(kb, vb). length kb \<le> unat KVSTORE_MAX_KEY_SIZE) ss))),
                     cursor_key = buf_store (cursor_key cur) (take (unat key_size) kbuf),
                     cursor_key_size = key_size\<rparr>,
               mem)"
    using assms(3,4) by (cases cur) (simp add: ram_store_def not_less mx)
  have "slots_bytes (takeWhile (\<lambda>(kb, vb). length kb \<le> unat KVSTORE_MAX_KEY_SIZE) ss) = mem"
    if "\<forall>(kb, vb) \<in> set ss. length kb \<le> unat KVSTORE_MAX_KEY_SIZE"
    using m that by (simp add: scan_all_short)
  with res show ?thesis
    by simp
qed

theorem kvstore_search_absent_key_witness:
  "decode_slots [0xf8, 0x2a, 0x93, 0x11, 1, 0, 0, 0, 97, 1, 0, 0, 0, 98,
                 0xf8, 0x2a, 0x93, 0x11, 0, 0, 0, 0, 2, 0, 0, 0, 0, 0]
     = Some [([97], [98]), ([], [0, 0])]
   \<and> kvstore_search ram_store
         (Some \<lparr>cursor_position = 7, cursor_key = replicate 16 0, cursor_key_size = 0\<rparr>)
         (Some [122]) 1
         [0xf8, 0x2a, 0x93, 0x11, 1, 0, 0, 0, 97, 1, 0, 0, 0, 98,
          0xf8, 0x2a, 0x93, 0x11, 0, 0, 0, 0, 2, 0, 0, 0, 0, 0]
       = Some (KVSTORE_FAILED,
          Some \<lparr>cursor_position = 28, cursor_key = 122 # replicate 15 0, cursor_key_size = 1\<rparr>,
          [0xf8, 0x2a, 0x93, 0x11, 1, 0, 0, 0, 97, 1, 0, 0, 0, 98,
           0xf8, 0x2a, 0x93, 0x11, 0, 0, 0, 0, 2, 0, 0, 0, 0, 0])
   \<and> decode_slots ([0xf8, 0x2a, 0x93, 0x11, 1, 0, 0, 0, 97, 1, 0, 0, 0, 98,
                    0xf8, 0x2a, 0x93, 0x11, 17, 0, 0, 0] @ replicate 17 99 @ [1, 0, 0, 0, 100])
     = Some [([97], [98]), (replicate 17 99, [100])]
   \<and> kvstore_search ram_store
         (Some \<lparr>cursor_position = 7, cursor_key = replicate 16 0, cursor_key_size = 0\<rparr>)
         (Some [122]) 1
         ([0xf8, 0x2a, 0x93, 0x11, 1, 0, 0, 0, 97, 1, 0, 0, 0, 98,
           0xf8, 0x2a, 0x93, 0x11, 17, 0, 0, 0] @ replicate 17 99 @ [1, 0, 0, 0, 100])
       = Some (KVSTORE_FAILED,
          Some \<lparr>cursor_position = 14, cursor_key = 122 # replicate 15 0, cursor_key_size = 1\<rparr>,
          [0xf8, 0x2a, 0x93, 0x11, 1, 0, 0, 0, 97, 1, 0, 0, 0, 98,
           0xf8, 0x2a, 0x93, 0x11, 17, 0, 0, 0] @ replicate 17 99 @ [1, 0, 0, 0, 100])"
proof -
  let ?cur = "\<lparr>cursor_position = 7, cursor_key = replicate 16 0, cursor_key_size = 0\<rparr>"
  let ?m = "[0xf8, 0x2a, 0x93, 0x11, 1, 0, 0, 0, 97, 1, 0, 0, 0, 98,
             0xf8, 0x2a, 0x93, 0x11, 0, 0, 0, 0, 2, 0, 0, 0, 0, 0] :: uint8_t list"
  let ?ss = "[([97], [98]), ([], [0, 0])] :: (uint8_t list \<times> uint8_t list) list"
  let ?m2 = "[0xf8, 0x2a, 0x93, 0x11, 1, 0, 0, 0, 97, 1, 0, 0, 0, 98,
              0xf8, 0x2a, 0x93, 0x11, 17, 0, 0, 0] @ replicate 17 99 @ [1, 0, 0, 0, 100]
             :: uint8_t list"
  let ?ss2 = "[([97], [98]), (replicate 17 99, [100])] :: (uint8_t list \<times> uint8_t list) list"
  have d: "decode_slots ?m = Some ?ss"
    by code_simp
  have d2: "decode_slots ?m2 = Some ?ss2"
    by code_simp
  have short: "\<forall>(kb, vb) \<in> set ?ss. length kb \<le> unat KVSTORE_MAX_KEY_SIZE"
    by (simp add: KVSTORE_MAX_KEY_SIZE_def)
  have k: "buf_store (cursor_key ?cur) (take (unat (1 :: size_t)) [122]) = 122 # replicate 15 0"
    by code_simp
  have p2: "(of_nat (length (slots_bytes
               (takeWhile (\<lambda>(kb, vb). length kb \<le> unat KVSTORE_MAX_KEY_SIZE) ?ss2))) :: size_t) = 14"
    by code_simp
  have abs1: "take (unat (1 :: size_t)) [122 :: uint8_t] \<notin> fst ` set ?ss"
    by code_simp
  have abs2: "take (unat (1 :: size_t)) [122 :: uint8_t] \<notin> fst ` set ?ss2"
    by code_simp
  have l: "length ?m < 2^32" and l2: "length ?m2 < 2^32"
    by simp_all
  have ks: "(1 :: size_t) \<noteq> 0" "(1 :: size_t) \<le> KVSTORE_MAX_KEY_SIZE"
    "unat (1 :: size_t) \<le> length [122 :: uint8_t]"
    by (simp_all add: KVSTORE_MAX_KEY_SIZE_def)
  have a: "kvstore_search ram_store (Some ?cur) (Some [122]) 1 ?m
       = Some (KVSTORE_FAILED,
          Some \<lparr>cursor_position = of_nat (length ?m), cursor_key = 122 # replicate 15 0,
                cursor_key_size = 1\<rparr>, ?m)"
    using kvstore_search_absent_key [OF d l ks abs1, of ?cur, THEN conjunct2, THEN mp, OF short]
    unfolding k .
  have b: "kvstore_search ram_store (Some ?cur) (Some [122]) 1 ?m2
       = Some (KVSTORE_FAILED,
          Some \<lparr>cursor_position = 14, cursor_key = 122 # replicate 15 0,
                cursor_key_size = 1\<rparr>, ?m2)"
    using kvstore_search_absent_key [OF d2 l2 ks abs2, of ?cur, THEN conjunct1]
    unfolding k p2 .
  from a have a': "kvstore_search ram_store (Some ?cur) (Some [122]) 1 ?m
       = Some (KVSTORE_FAILED,
          Some \<lparr>cursor_position = 28, cursor_key = 122 # replicate 15 0,
                cursor_key_size = 1\<rparr>, ?m)"
    by simp
  from d a' d2 b show ?thesis
    by (intro conjI)
qed

section \<open>Writing slots and inserting on the memory backend\<close>

lemma ram_write_app:
  "length A = unat pos \<Longrightarrow> length X = unat n \<Longrightarrow> length buf = unat n \<Longrightarrow>
   ram_write (A @ X @ B) buf pos n = (KVSTORE_OK, A @ buf @ B)"
  by (simp add: ram_write_def)

lemma write_slot_ram_gen:
  assumes mem: "mem = A @ X1 @ X2 @ X3 @ X4 @ X5 @ B"
    and len: "length X1 = 4" "length X2 = 4" "length X3 = unat ks" "length X4 = 4"
             "length X5 = unat vs"
    and sz: "length mem < 2^32" and vs: "vs \<noteq> 0"
    and kb: "case k of None \<Rightarrow> K = X3 | Some kb \<Rightarrow> K = kb \<and> length kb = unat ks"
    and vb: "case v of None \<Rightarrow> V = X5 | Some vb \<Rightarrow> V = vb \<and> length vb = unat vs"
  shows "write_slot ram_store (of_nat (length A)) k ks v vs mem
           = (KVSTORE_OK, A @ KVSTORE_HEADER_MAGIC @ le_bytes ks @ K @ le_bytes vs @ V @ B)"
proof -
  let ?pos = "of_nat (length A) :: size_t"
  have l: "length A + 12 + unat ks + unat vs + length B < 2^32"
    using sz len by (simp add: mem)
  have p0: "unat ?pos = length A"
    using l by (simp add: unat_of_nat)
  have p1: "unat (?pos + 4) = length (A @ KVSTORE_HEADER_MAGIC)"
    using l by (simp add: w2n KVSTORE_HEADER_MAGIC_def)
  have p2: "unat (?pos + 4 + 4) = length (A @ KVSTORE_HEADER_MAGIC @ le_bytes ks)"
    using l by (simp add: w2n KVSTORE_HEADER_MAGIC_def)
  have lK: "length K = unat ks"
    using kb len by (cases k) auto
  have lV: "length V = unat vs"
    using vb len by (cases v) auto
  have p3: "unat (?pos + 4 + 4 + ks) = length (A @ KVSTORE_HEADER_MAGIC @ le_bytes ks @ K)"
    using l lK by (simp add: w2n KVSTORE_HEADER_MAGIC_def)
  have p4: "unat (?pos + 4 + 4 + ks + 4)
              = length (A @ KVSTORE_HEADER_MAGIC @ le_bytes ks @ K @ le_bytes vs)"
    using l lK by (simp add: w2n KVSTORE_HEADER_MAGIC_def)
  have bound: "\<not> ?pos + calculate_slot_size ks vs > of_nat (length mem)"
    using l
    by (simp add: calculate_slot_size_def KVSTORE_HEADER_SIZE_BYTES_def
        KVSTORE_KEY_SIZE_BYTES_def KVSTORE_VALUE_SIZE_BYTES_def w2n mem len)
  have w1: "ram_write mem KVSTORE_HEADER_MAGIC ?pos 4
              = (KVSTORE_OK, A @ KVSTORE_HEADER_MAGIC @ X2 @ X3 @ X4 @ X5 @ B)"
    unfolding mem using p0 len
    by (intro ram_write_app [of A ?pos X1 4, simplified]) (simp_all add: KVSTORE_HEADER_MAGIC_def)
  have w2: "ram_write (A @ KVSTORE_HEADER_MAGIC @ X2 @ X3 @ X4 @ X5 @ B) (le_bytes ks) (?pos + 4) 4
              = (KVSTORE_OK, A @ KVSTORE_HEADER_MAGIC @ le_bytes ks @ X3 @ X4 @ X5 @ B)"
    using ram_write_app [of "A @ KVSTORE_HEADER_MAGIC" "?pos + 4" X2 4 "le_bytes ks"
        "X3 @ X4 @ X5 @ B"] p1 len
    by simp
  have w3: "(case k of None \<Rightarrow> (KVSTORE_OK, A @ KVSTORE_HEADER_MAGIC @ le_bytes ks @ X3 @ X4 @ X5 @ B)
            | Some kb \<Rightarrow> ram_write (A @ KVSTORE_HEADER_MAGIC @ le_bytes ks @ X3 @ X4 @ X5 @ B)
                           kb (?pos + 4 + 4) ks)
              = (KVSTORE_OK, A @ KVSTORE_HEADER_MAGIC @ le_bytes ks @ K @ X4 @ X5 @ B)"
  proof (cases k)
    case None
    with kb show ?thesis by simp
  next
    case (Some kb')
    with kb have "K = kb'" "length kb' = unat ks" by auto
    then show ?thesis
      using ram_write_app [of "A @ KVSTORE_HEADER_MAGIC @ le_bytes ks" "?pos + 4 + 4" X3 ks kb'
          "X4 @ X5 @ B"] p2 len Some
      by simp
  qed
  have w4: "ram_write (A @ KVSTORE_HEADER_MAGIC @ le_bytes ks @ K @ X4 @ X5 @ B) (le_bytes vs)
              (?pos + 4 + 4 + ks) 4
              = (KVSTORE_OK, A @ KVSTORE_HEADER_MAGIC @ le_bytes ks @ K @ le_bytes vs @ X5 @ B)"
    using ram_write_app [of "A @ KVSTORE_HEADER_MAGIC @ le_bytes ks @ K" "?pos + 4 + 4 + ks" X4 4
        "le_bytes vs" "X5 @ B"] p3 len
    by simp
  have w5: "(case v of None \<Rightarrow> (KVSTORE_OK, A @ KVSTORE_HEADER_MAGIC @ le_bytes ks @ K @ le_bytes vs @ X5 @ B)
            | Some vb \<Rightarrow> ram_write (A @ KVSTORE_HEADER_MAGIC @ le_bytes ks @ K @ le_bytes vs @ X5 @ B)
                           vb (?pos + 4 + 4 + ks + 4) vs)
              = (KVSTORE_OK, A @ KVSTORE_HEADER_MAGIC @ le_bytes ks @ K @ le_bytes vs @ V @ B)"
  proof (cases v)
    case None
    with vb show ?thesis by simp
  next
    case (Some vb')
    with vb have "V = vb'" "length vb' = unat vs" by auto
    then show ?thesis
      using ram_write_app [of "A @ KVSTORE_HEADER_MAGIC @ le_bytes ks @ K @ le_bytes vs"
          "?pos + 4 + 4 + ks + 4" X5 vs vb' B] p4 len Some
      by simp
  qed
  show ?thesis
    unfolding ram_store_def
    by (simp only: write_slot.simps vs bound if_False KvStore.simps kvstore_backend.simps
        ram_backend_def option.case Let_def prod.case ram_get_size_def
        KVSTORE_HEADER_SIZE_BYTES_def KVSTORE_KEY_SIZE_BYTES_def KVSTORE_VALUE_SIZE_BYTES_def
        ucast_id w1 w2 w3 w4 w5 simp_thms)
qed

lemma write_slot_ram_pair:
  assumes "mem = A @ X @ B" "length X = 12 + length kb + length vb" "length mem < 2^32"
    and "vb \<noteq> []"
  shows "write_slot ram_store (of_nat (length A)) (Some kb) (of_nat (length kb))
           (Some vb) (of_nat (length vb)) mem
         = (KVSTORE_OK, A @ slot_bytes kb vb @ B)"
proof -
  have l: "length kb < 2^32" "length vb < 2^32"
    using assms(1,2,3) by simp_all
  then have u: "unat (of_nat (length kb) :: size_t) = length kb"
    "unat (of_nat (length vb) :: size_t) = length vb"
    by (simp_all add: unat_of_nat)
  have X: "X = take 4 X @ take 4 (drop 4 X) @ take (length kb) (drop 8 X)
             @ take 4 (drop (8 + length kb) X) @ take (length vb) (drop (12 + length kb) X)"
    using take_slot_split [of "length kb" "length vb" X] assms(2) by simp
  have m: "mem = A @ take 4 X @ take 4 (drop 4 X) @ take (length kb) (drop 8 X)
             @ take 4 (drop (8 + length kb) X) @ take (length vb) (drop (12 + length kb) X) @ B"
    using assms(1) X by simp
  have nz: "(of_nat (length vb) :: size_t) \<noteq> 0"
    using assms(4) l(2) u(2) by (metis length_0_conv unat_0)
  show ?thesis
    unfolding slot_bytes_def
    using write_slot_ram_gen [OF m _ _ _ _ _ assms(3) nz, where k = "Some kb" and K = kb
        and v = "Some vb" and V = vb] assms(2) u
    by simp
qed

lemma write_slot_ram_free:
  assumes "mem = A @ X @ B" "length X = 12 + n" "length mem < 2^32" "n \<noteq> 0"
  shows "write_slot ram_store (of_nat (length A)) None 0 None (of_nat n) mem
         = (KVSTORE_OK, A @ slot_bytes [] (drop 12 X) @ B)"
proof -
  have l: "n < 2^32"
    using assms(1,2,3) by simp
  then have u: "unat (of_nat n :: size_t) = n"
    by (simp add: unat_of_nat)
  have X: "X = take 4 X @ take 4 (drop 4 X) @ [] @ take 4 (drop 8 X) @ drop 12 X"
    using take_slot_split [of 0 n X] assms(2) by simp
  have m: "mem = A @ take 4 X @ take 4 (drop 4 X) @ [] @ take 4 (drop 8 X) @ drop 12 X @ B"
    using assms(1) X by simp
  have nz: "(of_nat n :: size_t) \<noteq> 0"
    using assms(4) u by (metis unat_0)
  show ?thesis
    unfolding slot_bytes_def
    using write_slot_ram_gen [OF m _ _ _ _ _ assms(3) nz, where k = None and K = "[]"
        and v = None and V = "drop 12 X" and ks = 0] assms(2) u
    by simp
qed

lemma write_slot_ram_at_end:
  assumes "length mem < 2^32"
  shows "fst (write_slot ram_store (of_nat (length mem)) k ks v vs mem) \<noteq> KVSTORE_OK
         \<and> snd (write_slot ram_store (of_nat (length mem)) k ks v vs mem) = mem"
proof -
  have "unat (of_nat (length mem) :: size_t) = length mem"
    using assms by (simp add: unat_of_nat)
  then have w: "ram_write mem KVSTORE_HEADER_MAGIC (of_nat (length mem)) 4 = (KVSTORE_FAILED, mem)"
    by (simp add: ram_write_def)
  show ?thesis
    by (simp add: write_slot.simps ram_store_def ram_backend_def ram_get_size_def Let_def
        KVSTORE_HEADER_SIZE_BYTES_def w)
qed

lemma put_read_ram:
  assumes "mem = A @ slot_bytes kb vb @ B" "length mem < 2^32"
  shows "read_slot ram_store (of_nat (length A))
            \<lparr>rb_key = None, rb_key_size = Some fk, rb_value = None, rb_value_size = Some fv\<rparr> mem
       = (KVSTORE_OK,
          \<lparr>rb_key = None, rb_key_size = Some (of_nat (length kb)),
           rb_value = None, rb_value_size = Some (of_nat (length vb))\<rparr>, mem)"
proof -
  have p: "unat (of_nat (length A) :: size_t) = length A"
    using assms by (simp add: unat_of_nat)
  show ?thesis
    using read_slot_ram [OF assms(1,2) p, of
        "\<lparr>rb_key = None, rb_key_size = Some fk, rb_value = None, rb_value_size = Some fv\<rparr>"]
    by simp
qed

lemma put_loop_skip:
  assumes "mem = A @ slot_bytes kb' vb' @ B" "length mem < 2^32"
    and "unat ks + unat vs + 24 < 2^32"
    and "kb' \<noteq> [] \<or> length vb' < unat ks + unat vs + 12"
  shows "kvstore_put_loop ram_store k ks v vs (of_nat (length mem)) (of_nat (length A), fk, fv) mem
       = kvstore_put_loop ram_store k ks v vs (of_nat (length mem))
           (of_nat (length (A @ slot_bytes kb' vb')), of_nat (length kb'), of_nat (length vb')) mem"
proof -
  have l: "length A + 12 + length kb' + length vb' + length B < 2^32"
    using assms(1,2) by simp
  have lt: "\<not> (of_nat (length mem) :: size_t) \<le> of_nat (length A)"
    using l by (simp add: assms(1) w2n)
  have z: "(0 < (of_nat (length kb') :: size_t)) = (kb' \<noteq> [])"
    using l by (simp add: w2n)
  have c: "kb' = [] \<Longrightarrow>
      calculate_slot_size (of_nat (length kb')) (of_nat (length vb'))
        < calculate_slot_size ks vs + calculate_slot_size 0 0"
    using l assms(3,4)
    by (simp add: calculate_slot_size_def KVSTORE_HEADER_SIZE_BYTES_def
        KVSTORE_KEY_SIZE_BYTES_def KVSTORE_VALUE_SIZE_BYTES_def w2n)
  have pos: "(of_nat (length A) :: size_t)
               + calculate_slot_size (of_nat (length kb')) (of_nat (length vb'))
             = of_nat (length (A @ slot_bytes kb' vb'))"
    by (simp add: calculate_slot_size_def KVSTORE_HEADER_SIZE_BYTES_def
        KVSTORE_KEY_SIZE_BYTES_def KVSTORE_VALUE_SIZE_BYTES_def)
  show ?thesis
    apply (subst kvstore_put_loop.simps)
    using lt c
    apply (simp add: put_read_ram [OF assms(1,2)] Let_def z pos del: length_append length_slot_bytes)
    apply (cases "kb' = []")
    apply (simp_all add: calculate_slot_size_def KVSTORE_HEADER_SIZE_BYTES_def
        KVSTORE_KEY_SIZE_BYTES_def KVSTORE_VALUE_SIZE_BYTES_def)
    done
qed

lemma put_loop_scan:
  assumes "mem = A @ slots_bytes pre @ R" "length mem < 2^32"
    and "unat ks + unat vs + 24 < 2^32"
    and "\<forall>(kb', vb') \<in> set pre. kb' \<noteq> [] \<or> length vb' < unat ks + unat vs + 12"
    and "\<And>fk fv. kvstore_put_loop ram_store k ks v vs (of_nat (length mem))
           (of_nat (length (A @ slots_bytes pre)), fk, fv) mem = res"
  shows "kvstore_put_loop ram_store k ks v vs (of_nat (length mem))
           (of_nat (length A), fk, fv) mem = res"
  using assms
proof (induction pre arbitrary: A fk fv)
  case Nil
  then show ?case by simp
next
  case (Cons s pre)
  obtain kb' vb' where s: "s = (kb', vb')" by (cases s)
  have m: "mem = A @ slot_bytes kb' vb' @ (slots_bytes pre @ R)"
    using Cons.prems(1) by (simp add: s)
  have m': "mem = (A @ slot_bytes kb' vb') @ slots_bytes pre @ R"
    using Cons.prems(1) by (simp add: s)
  have u: "kb' \<noteq> [] \<or> length vb' < unat ks + unat vs + 12"
    using Cons.prems(4) by (simp add: s)
  have r: "\<forall>(kb', vb') \<in> set pre. kb' \<noteq> [] \<or> length vb' < unat ks + unat vs + 12"
    using Cons.prems(4) by simp
  have e: "\<And>fk fv. kvstore_put_loop ram_store k ks v vs (of_nat (length mem))
           (of_nat (length ((A @ slot_bytes kb' vb') @ slots_bytes pre)), fk, fv) mem = res"
    using Cons.prems(5) by (simp add: s add.assoc)
  show ?case
    unfolding put_loop_skip [OF m Cons.prems(2,3) u]
    by (rule Cons.IH [OF m' Cons.prems(2,3) r e])
qed

lemma put_loop_end:
  "kvstore_put_loop ram_store k ks v vs sz (sz, fk, fv) mem = Some (Inr sz, mem)"
  by (subst kvstore_put_loop.simps) simp

lemma drop_free_slot: "drop (12 + n) (slot_bytes [] pad) = drop n pad"
proof -
  let ?H = "KVSTORE_HEADER_MAGIC @ le_bytes 0 @ le_bytes (of_nat (length pad))"
  have "slot_bytes [] pad = ?H @ pad"
    by (simp add: slot_bytes_def)
  moreover have "length ?H = 12"
    by (simp add: KVSTORE_HEADER_MAGIC_def)
  ultimately show ?thesis
    by (simp del: append_assoc)
qed

lemma put_loop_split:
  assumes "mem = A @ slot_bytes [] pad @ B" "length mem < 2^32" "vb \<noteq> []"
    and "12 + length kb + length vb \<le> length pad"
  shows "kvstore_put_loop ram_store (Some kb) (of_nat (length kb)) (Some vb) (of_nat (length vb))
           (of_nat (length mem)) (of_nat (length A), fk, fv) mem
       = Some (Inl KVSTORE_OK,
           A @ slot_bytes kb vb
             @ (if length pad = 12 + length kb + length vb
                then drop (length kb + length vb) pad
                else slot_bytes [] (drop (12 + length kb + length vb) pad))
             @ B)"
proof -
  let ?need = "12 + length kb + length vb"
  let ?F = "slot_bytes [] pad"
  let ?ks = "of_nat (length kb) :: size_t" and ?vs = "of_nat (length vb) :: size_t"
  let ?n = "length pad - ?need"
  have l: "length A + 12 + length pad + length B < 2^32"
    using assms(1,2) by simp
  have lt: "\<not> (of_nat (length mem) :: size_t) \<le> of_nat (length A)"
    using l by (simp add: assms(1) w2n)
  have nosmall: "\<not> calculate_slot_size 0 (of_nat (length pad))
                   < calculate_slot_size ?ks ?vs + calculate_slot_size 0 0"
    using l assms(4)
    by (simp add: calculate_slot_size_def KVSTORE_HEADER_SIZE_BYTES_def
        KVSTORE_KEY_SIZE_BYTES_def KVSTORE_VALUE_SIZE_BYTES_def w2n)
  have slot2: "calculate_value_size
                 (calculate_slot_size 0 (of_nat (length pad)) - calculate_slot_size ?ks ?vs) 0
               = of_nat ?n"
    using assms(4)
    by (simp add: calculate_slot_size_def calculate_value_size_def KVSTORE_HEADER_SIZE_BYTES_def
        KVSTORE_KEY_SIZE_BYTES_def KVSTORE_VALUE_SIZE_BYTES_def of_nat_diff)
  have pos: "(of_nat (length A) :: size_t) + calculate_slot_size ?ks ?vs
               = of_nat (length (A @ slot_bytes kb vb))"
    by (simp add: calculate_slot_size_def KVSTORE_HEADER_SIZE_BYTES_def
        KVSTORE_KEY_SIZE_BYTES_def KVSTORE_VALUE_SIZE_BYTES_def)
  have m1: "mem = A @ take ?need ?F @ (drop ?need ?F @ B)"
    using assms(1) by simp
  have w1: "write_slot ram_store (of_nat (length A)) (Some kb) ?ks (Some vb) ?vs mem
              = (KVSTORE_OK, A @ slot_bytes kb vb @ drop ?need ?F @ B)"
    using assms(4) by (intro write_slot_ram_pair [OF m1 _ assms(2,3)]) simp
  let ?mem1 = "A @ slot_bytes kb vb @ drop ?need ?F @ B"
  have dF: "drop ?need ?F = drop (length kb + length vb) pad"
    using drop_free_slot [of "length kb + length vb" pad] by (simp add: add.assoc)
  have l1: "length ?mem1 < 2^32"
    using l assms(4) by simp
  have w2: "write_slot ram_store (of_nat (length (A @ slot_bytes kb vb))) None 0 None (of_nat ?n) ?mem1
              = (if ?n = 0 then KVSTORE_BAD_ARG else KVSTORE_OK,
                 A @ slot_bytes kb vb
                   @ (if length pad = ?need then drop (length kb + length vb) pad
                      else slot_bytes [] (drop ?need pad)) @ B)"
  proof (cases "?n = 0")
    case True
    with assms(4) have "length pad = ?need" by simp
    with True show ?thesis
      by (simp add: write_slot.simps ram_store_def dF)
  next
    case False
    have m2: "?mem1 = (A @ slot_bytes kb vb) @ drop ?need ?F @ B"
      by simp
    have lX: "length (drop ?need ?F) = 12 + ?n"
      using assms(4) by simp
    have d12: "drop 12 (drop ?need ?F) = drop ?need pad"
      using drop_free_slot [of ?need pad] by (simp add: add.commute)
    have "write_slot ram_store (of_nat (length (A @ slot_bytes kb vb))) None 0 None (of_nat ?n) ?mem1
            = (KVSTORE_OK, (A @ slot_bytes kb vb) @ slot_bytes [] (drop 12 (drop ?need ?F)) @ B)"
      by (rule write_slot_ram_free [OF m2 lX l1 False])
    then show ?thesis
      unfolding d12 using False assms(4) by simp
  qed
  show ?thesis
    apply (subst kvstore_put_loop.simps)
    using lt nosmall
    apply (simp add: put_read_ram [OF assms(1,2)] Let_def slot2 pos w1 w2
        del: length_append length_slot_bytes)
    done
qed

lemma kvstore_put_ram_args:
  assumes "kb \<noteq> []" "length kb \<le> 16" "vb \<noteq> []" "length vb < 2^32"
  shows "kvstore_put ram_store (Some kb) (of_nat (length kb)) (Some vb) (of_nat (length vb)) mem
       = (case kvstore_put_loop ram_store (Some kb) (of_nat (length kb)) (Some vb)
                 (of_nat (length vb)) (of_nat (length mem)) (0, 0, 0) mem of
            None \<Rightarrow> None
          | Some (Inl r, c) \<Rightarrow> Some (r, c)
          | Some (Inr position, c) \<Rightarrow>
              (let (r, c) = write_slot ram_store position (Some kb) (of_nat (length kb))
                              (Some vb) (of_nat (length vb)) c in
               if r \<noteq> KVSTORE_OK then Some (KVSTORE_NOT_FOUND, c) else Some (KVSTORE_OK, c)))"
proof -
  have "unat (of_nat (length kb) :: size_t) = length kb"
    using assms(2) by (simp add: unat_of_nat)
  then have k0: "(of_nat (length kb) :: size_t) \<noteq> 0"
    using assms(1) by (metis length_0_conv unat_0)
  have "unat (of_nat (length vb) :: size_t) = length vb"
    using assms(4) by (simp add: unat_of_nat)
  then have v0: "(of_nat (length vb) :: size_t) \<noteq> 0"
    using assms(3) by (metis length_0_conv unat_0)
  have k16: "\<not> (of_nat (length kb) :: size_t) > KVSTORE_MAX_KEY_SIZE"
    using assms(2) by (simp add: KVSTORE_MAX_KEY_SIZE_def w2n)
  have gs: "get_size ram_backend = Some ram_get_size"
    by (simp add: ram_backend_def)
  show ?thesis
    unfolding ram_store_def using k0 v0 k16
    by (simp add: gs ram_get_size_def)
qed

lemma kvstore_put_ram_split:
  assumes "mem = slots_bytes pre @ slot_bytes [] pad @ B" "length mem < 2^32"
    and "kb \<noteq> []" "length kb \<le> 16" "vb \<noteq> []"
    and "12 + length kb + length vb \<le> length pad"
    and "\<forall>(kb', vb') \<in> set pre. kb' \<noteq> [] \<or> length vb' < 12 + length kb + length vb"
  shows "kvstore_put ram_store (Some kb) (of_nat (length kb)) (Some vb) (of_nat (length vb)) mem
       = Some (KVSTORE_OK,
           slots_bytes pre @ slot_bytes kb vb
             @ (if length pad = 12 + length kb + length vb
                then drop (length kb + length vb) pad
                else slot_bytes [] (drop (12 + length kb + length vb) pad))
             @ B)"
proof -
  have l: "length kb + length vb + 24 < 2^32" "length vb < 2^32"
    using assms(1,2,6) by simp_all
  then have u: "unat (of_nat (length kb) :: size_t) = length kb"
    "unat (of_nat (length vb) :: size_t) = length vb"
    by (simp_all add: unat_of_nat)
  have m: "mem = [] @ slots_bytes pre @ (slot_bytes [] pad @ B)"
    using assms(1) by simp
  have m': "mem = ([] @ slots_bytes pre) @ slot_bytes [] pad @ B"
    using assms(1) by simp
  have "kvstore_put_loop ram_store (Some kb) (of_nat (length kb)) (Some vb) (of_nat (length vb))
           (of_nat (length mem)) (of_nat (length ([] :: uint8_t list)), 0, 0) mem
        = Some (Inl KVSTORE_OK,
           ([] @ slots_bytes pre) @ slot_bytes kb vb
             @ (if length pad = 12 + length kb + length vb
                then drop (length kb + length vb) pad
                else slot_bytes [] (drop (12 + length kb + length vb) pad))
             @ B)"
    using l assms(7)
    by (intro put_loop_scan [OF m assms(2)] put_loop_split [OF m' assms(2,5,6)])
       (auto simp add: u)
  then show ?thesis
    by (simp add: kvstore_put_ram_args [OF assms(3,4,5) l(2)])
qed

lemma kvstore_put_ram_full:
  assumes "mem = slots_bytes ss" "length mem < 2^32"
    and "kb \<noteq> []" "length kb \<le> 16" "vb \<noteq> []" "length kb + length vb + 24 < 2^32"
    and "\<forall>(kb', vb') \<in> set ss. kb' \<noteq> [] \<or> length vb' < 12 + length kb + length vb"
  shows "kvstore_put ram_store (Some kb) (of_nat (length kb)) (Some vb) (of_nat (length vb)) mem
       = Some (KVSTORE_NOT_FOUND, mem)"
proof -
  have l: "length vb < 2^32"
    using assms(6) by simp
  have u: "unat (of_nat (length kb) :: size_t) = length kb"
    "unat (of_nat (length vb) :: size_t) = length vb"
    using assms(6) by (simp_all add: unat_of_nat)
  have m: "mem = [] @ slots_bytes ss @ []"
    using assms(1) by simp
  have nw: "unat (of_nat (length kb) :: size_t) + unat (of_nat (length vb) :: size_t) + 24 < 2^32"
    using assms(6) u by simp
  have un: "\<forall>(kb', vb') \<in> set ss. kb' \<noteq> []
              \<or> length vb' < unat (of_nat (length kb) :: size_t) + unat (of_nat (length vb) :: size_t) + 12"
    using assms(7) u by auto
  have e: "kvstore_put_loop ram_store (Some kb) (of_nat (length kb)) (Some vb) (of_nat (length vb))
           (of_nat (length mem)) (of_nat (length ([] @ slots_bytes ss)), fk, fv) mem
        = Some (Inr (of_nat (length mem)), mem)" for fk fv
    using put_loop_end [of "Some kb" "of_nat (length kb)" "Some vb" "of_nat (length vb)"
        "of_nat (length mem)" fk fv mem]
    unfolding assms(1) by simp
  have "kvstore_put_loop ram_store (Some kb) (of_nat (length kb)) (Some vb) (of_nat (length vb))
           (of_nat (length mem)) (of_nat (length ([] :: uint8_t list)), 0, 0) mem
        = Some (Inr (of_nat (length mem)), mem)"
    by (rule put_loop_scan [OF m assms(2) nw un e])
  moreover obtain r where "write_slot ram_store (of_nat (length mem)) (Some kb) (of_nat (length kb))
       (Some vb) (of_nat (length vb)) mem = (r, mem)" "r \<noteq> KVSTORE_OK"
    using write_slot_ram_at_end [OF assms(2), of "Some kb" "of_nat (length kb)" "Some vb" "of_nat (length vb)"]
    by (cases "write_slot ram_store (of_nat (length mem)) (Some kb) (of_nat (length kb))
       (Some vb) (of_nat (length vb)) mem") auto
  ultimately show ?thesis
    by (simp add: kvstore_put_ram_args [OF assms(3,4,5) l])
qed

section \<open>Round trip on the memory backend\<close>

lemma search_finds_ram:
  assumes "mem = slots_bytes pre @ slot_bytes kb vb @ R" "length mem < 2^32"
    and "kb \<noteq> []" "length kb \<le> 16"
    and "\<forall>(kb', vb') \<in> set pre. kb' \<noteq> kb \<and> length kb' \<le> 16"
  shows "kvstore_search ram_store (Some cur) (Some kb) (of_nat (length kb)) mem
       = Some (KVSTORE_OK,
           Some \<lparr>cursor_position = of_nat (length (slots_bytes pre)),
                 cursor_key = kb @ drop (length kb) (cursor_key cur),
                 cursor_key_size = of_nat (length kb)\<rparr>, mem)"
proof -
  have u: "unat (of_nat (length kb) :: size_t) = length kb"
    using assms(4) by (simp add: unat_of_nat)
  let ?cur = "cur\<lparr>cursor_position := 0, cursor_key_size := of_nat (length kb),
                    cursor_key := buf_store (cursor_key cur) (take (unat (of_nat (length kb) :: size_t)) kb)\<rparr>"
  let ?cur1 = "?cur\<lparr>cursor_position := of_nat (length ([] @ slots_bytes pre))\<rparr>"
  have k0: "(of_nat (length kb) :: size_t) \<noteq> 0"
    using assms(3) u by (metis length_0_conv unat_0)
  have k16: "\<not> (of_nat (length kb) :: size_t) > KVSTORE_MAX_KEY_SIZE"
    using assms(4) by (simp add: KVSTORE_MAX_KEY_SIZE_def w2n)
  have m: "mem = [] @ slots_bytes pre @ (slot_bytes kb vb @ R)"
    using assms(1) by simp
  have m': "mem = ([] @ slots_bytes pre) @ slot_bytes kb vb @ R"
    using assms(1) by simp
  have nomatch: "\<forall>(kb', vb') \<in> set pre. length kb' \<le> 16
       \<and> (cursor_key_size ?cur \<noteq> of_nat (length kb') \<or> take (length kb') (cursor_key ?cur) \<noteq> kb')"
  proof (clarify, rule conjI)
    fix kb' vb'
    assume i: "(kb', vb') \<in> set pre"
    with assms(5) show l: "length kb' \<le> 16" by auto
    show "cursor_key_size ?cur \<noteq> of_nat (length kb') \<or> take (length kb') (cursor_key ?cur) \<noteq> kb'"
    proof (rule ccontr)
      assume "\<not> ?thesis"
      then have e: "(of_nat (length kb) :: size_t) = of_nat (length kb')"
        and t: "take (length kb') (cursor_key ?cur) = kb'"
        by simp_all
      have u': "unat (of_nat (length kb') :: size_t) = length kb'"
        using l by (simp add: unat_of_nat)
      from arg_cong [OF e, of unat] have "length kb = length kb'"
        unfolding u u' .
      with t u have "kb' = kb"
        by (simp add: buf_store_def)
      with i assms(5) show False by auto
    qed
  qed
  have "kvstore_search_next_loop ram_store (Some ?cur) mem
          = kvstore_search_next_loop ram_store (Some ?cur1) mem"
    by (rule search_loop_scan [OF m assms(2) _ nomatch]) simp
  also have "\<dots> = Some (KVSTORE_OK, Some ?cur1, mem)"
    using u by (intro search_loop_match [OF m' assms(2) _ assms(4)]) (simp_all add: buf_store_def)
  finally show ?thesis
    using k0 k16 u by (simp add: ram_store_def buf_store_def)
qed

lemma kvstore_get_ram:
  assumes "mem = A @ slot_bytes kb vb @ R" "length mem < 2^32"
    and "cursor_position cur = of_nat (length A)"
    and "vb \<noteq> []" "of_nat (length vb) \<le> cap"
  shows "kvstore_get ram_store (Some cur) (Some vbuf) (Some cap) mem
       = (KVSTORE_OK, Some (vb @ drop (length vb) vbuf), Some (of_nat (length vb)), mem)"
proof -
  have p: "unat (cursor_position cur) = length A"
    using assms(1,2,3) by (simp add: unat_of_nat)
  have "unat (of_nat (length vb) :: size_t) = length vb"
    using assms(1,2) by (simp add: unat_of_nat)
  then have "(of_nat (length vb) :: size_t) \<noteq> 0"
    using assms(4) by (metis length_0_conv unat_0)
  with assms(5) have c0: "cap \<noteq> 0"
    by auto
  show ?thesis
    using read_slot_ram [OF assms(1,2) p, of
        "\<lparr>rb_key = None, rb_key_size = Some 0, rb_value = Some vbuf, rb_value_size = Some cap\<rparr>"]
      c0 assms(5)
    by (simp add: ram_store_def buf_store_def not_less)
qed

text \<open>
  Claim C2 as stated fails when the key is already stored: \<open>kvstore_put\<close> adds a second
  slot behind the first, and \<open>kvstore_search\<close> parks on the first. Here the store holds
  the key \<open>a\<close> with value \<open>b\<close>; \<open>kvstore_put\<close> of \<open>a\<close> with value \<open>c\<close> returns
  \<open>KVSTORE_OK\<close>, and \<open>kvstore_search\<close> then \<open>kvstore_get\<close> return \<open>b\<close>.
\<close>

theorem roundtrip_duplicate_key_counterexample:
  "decode_slots
     [0xf8, 0x2a, 0x93, 0x11, 1, 0, 0, 0, 97, 1, 0, 0, 0, 98,
      0xf8, 0x2a, 0x93, 0x11, 0, 0, 0, 0, 18, 0, 0, 0,
      0, 0, 0, 0, 0, 0, 0, 0, 0, 0, 0, 0, 0, 0, 0, 0, 0, 0]
     = Some [([97], [98]), ([], replicate 18 0)]
   \<and> kvstore_put ram_store (Some [97]) 1 (Some [99]) 1
     [0xf8, 0x2a, 0x93, 0x11, 1, 0, 0, 0, 97, 1, 0, 0, 0, 98,
      0xf8, 0x2a, 0x93, 0x11, 0, 0, 0, 0, 18, 0, 0, 0,
      0, 0, 0, 0, 0, 0, 0, 0, 0, 0, 0, 0, 0, 0, 0, 0, 0, 0]
     = Some (KVSTORE_OK,
        [0xf8, 0x2a, 0x93, 0x11, 1, 0, 0, 0, 97, 1, 0, 0, 0, 98,
         0xf8, 0x2a, 0x93, 0x11, 1, 0, 0, 0, 97, 1, 0, 0, 0, 99,
         0xf8, 0x2a, 0x93, 0x11, 0, 0, 0, 0, 4, 0, 0, 0, 0, 0, 0, 0])
   \<and> kvstore_search ram_store
         (Some \<lparr>cursor_position = 0, cursor_key = replicate 16 0, cursor_key_size = 0\<rparr>)
         (Some [97]) 1
        [0xf8, 0x2a, 0x93, 0x11, 1, 0, 0, 0, 97, 1, 0, 0, 0, 98,
         0xf8, 0x2a, 0x93, 0x11, 1, 0, 0, 0, 97, 1, 0, 0, 0, 99,
         0xf8, 0x2a, 0x93, 0x11, 0, 0, 0, 0, 4, 0, 0, 0, 0, 0, 0, 0]
     = Some (KVSTORE_OK,
         Some \<lparr>cursor_position = 0, cursor_key = 97 # replicate 15 0, cursor_key_size = 1\<rparr>,
        [0xf8, 0x2a, 0x93, 0x11, 1, 0, 0, 0, 97, 1, 0, 0, 0, 98,
         0xf8, 0x2a, 0x93, 0x11, 1, 0, 0, 0, 97, 1, 0, 0, 0, 99,
         0xf8, 0x2a, 0x93, 0x11, 0, 0, 0, 0, 4, 0, 0, 0, 0, 0, 0, 0])
   \<and> kvstore_get ram_store
         (Some \<lparr>cursor_position = 0, cursor_key = 97 # replicate 15 0, cursor_key_size = 1\<rparr>)
         (Some [0]) (Some 1)
        [0xf8, 0x2a, 0x93, 0x11, 1, 0, 0, 0, 97, 1, 0, 0, 0, 98,
         0xf8, 0x2a, 0x93, 0x11, 1, 0, 0, 0, 97, 1, 0, 0, 0, 99,
         0xf8, 0x2a, 0x93, 0x11, 0, 0, 0, 0, 4, 0, 0, 0, 0, 0, 0, 0]
     = (KVSTORE_OK, Some [98], Some 1,
        [0xf8, 0x2a, 0x93, 0x11, 1, 0, 0, 0, 97, 1, 0, 0, 0, 98,
         0xf8, 0x2a, 0x93, 0x11, 1, 0, 0, 0, 97, 1, 0, 0, 0, 99,
         0xf8, 0x2a, 0x93, 0x11, 0, 0, 0, 0, 4, 0, 0, 0, 0, 0, 0, 0])
   \<and> [98] \<noteq> [99 :: uint8_t]"
  by code_simp

text \<open>
  Claim C2, amended. On the memory backend, for a store that satisfies the packing
  invariant and in which no slot holds the key \<open>K\<close> and every stored key has at most
  \<open>KVSTORE_MAX_KEY_SIZE\<close> bytes: for every key \<open>K\<close> of 1 to \<open>KVSTORE_MAX_KEY_SIZE\<close>
  bytes and every non-empty value \<open>V\<close> (the slot sizes not wrapping around), when
  \<open>kvstore_put\<close> of \<open>K\<close> and \<open>V\<close> returns \<open>KVSTORE_OK\<close>, \<open>kvstore_search\<close> for \<open>K\<close>
  returns \<open>KVSTORE_OK\<close>, and \<open>kvstore_get\<close> at the cursor it leaves, with a value buffer
  of capacity at least the length of \<open>V\<close>, returns \<open>KVSTORE_OK\<close>, the bytes of \<open>V\<close> at
  the start of the buffer and the length of \<open>V\<close>.
\<close>

theorem put_search_get_roundtrip:
  assumes "decode_slots mem = Some ss" and "length mem < 2^32"
    and "kb \<noteq> []" "length kb \<le> 16" "vb \<noteq> []" "length kb + length vb + 24 < 2^32"
    and "\<forall>(kb', vb') \<in> set ss. kb' \<noteq> kb \<and> length kb' \<le> 16"
    and "kvstore_put ram_store (Some kb) (of_nat (length kb)) (Some vb) (of_nat (length vb)) mem
           = Some (KVSTORE_OK, mem')"
    and "of_nat (length vb) \<le> cap"
  shows "\<exists>cur'. kvstore_search ram_store (Some cur) (Some kb) (of_nat (length kb)) mem'
                  = Some (KVSTORE_OK, Some cur', mem')
              \<and> kvstore_get ram_store (Some cur') (Some vbuf) (Some cap) mem'
                  = (KVSTORE_OK, Some (vb @ drop (length vb) vbuf), Some (of_nat (length vb)), mem')"
proof -
  let ?need = "12 + length kb + length vb"
  let ?P = "\<lambda>s. fst s = [] \<and> ?need \<le> length (snd s)"
  have m: "mem = slots_bytes ss"
    by (rule decode_slots_bytes [OF assms(1)])
  have ex: "\<exists>s \<in> set ss. ?P s"
  proof (rule ccontr)
    assume "\<not> ?thesis"
    then have "\<forall>(kb', vb') \<in> set ss. kb' \<noteq> [] \<or> length vb' < ?need"
      by (auto simp add: not_le)
    from kvstore_put_ram_full [OF m assms(2,3,4,5,6) this] assms(8) show False
      by simp
  qed
  then obtain pre s post where ss: "ss = pre @ s # post" and Ps: "?P s"
    and pre: "\<forall>t \<in> set pre. \<not> ?P t"
    using split_list_first_prop [of ss ?P] by blast
  obtain pad where s: "s = ([], pad)" and pad: "?need \<le> length pad"
    using Ps by (cases s) auto
  let ?tail = "if length pad = ?need then drop (length kb + length vb) pad
               else slot_bytes [] (drop ?need pad)"
  have m2: "mem = slots_bytes pre @ slot_bytes [] pad @ slots_bytes post"
    using m by (simp add: ss s)
  have un: "\<forall>(kb', vb') \<in> set pre. kb' \<noteq> [] \<or> length vb' < ?need"
    using pre by (auto simp add: not_le)
  have mem': "mem' = slots_bytes pre @ slot_bytes kb vb @ ?tail @ slots_bytes post"
    using kvstore_put_ram_split [OF m2 assms(2,3,4,5) pad un] assms(8) by simp
  have l': "length mem' < 2^32"
    using assms(2) pad unfolding mem' m2 by simp
  have keys: "\<forall>(kb', vb') \<in> set pre. kb' \<noteq> kb \<and> length kb' \<le> 16"
    using assms(7) by (auto simp add: ss)
  let ?cur' = "\<lparr>cursor_position = of_nat (length (slots_bytes pre)),
                cursor_key = kb @ drop (length kb) (cursor_key cur),
                cursor_key_size = of_nat (length kb)\<rparr>"
  have "kvstore_search ram_store (Some cur) (Some kb) (of_nat (length kb)) mem'
          = Some (KVSTORE_OK, Some ?cur', mem')"
    by (rule search_finds_ram [OF mem' l' assms(3,4) keys])
  moreover have "kvstore_get ram_store (Some ?cur') (Some vbuf) (Some cap) mem'
          = (KVSTORE_OK, Some (vb @ drop (length vb) vbuf), Some (of_nat (length vb)), mem')"
    by (rule kvstore_get_ram [OF mem' l' _ assms(5,9)]) simp
  ultimately show ?thesis by blast
qed

theorem put_search_get_roundtrip_witness:
  "decode_slots
     [0xf8, 0x2a, 0x93, 0x11, 1, 0, 0, 0, 120, 1, 0, 0, 0, 98,
      0xf8, 0x2a, 0x93, 0x11, 0, 0, 0, 0, 18, 0, 0, 0,
      0, 0, 0, 0, 0, 0, 0, 0, 0, 0, 0, 0, 0, 0, 0, 0, 0, 0]
     = Some [([120], [98]), ([], replicate 18 0)]
   \<and> kvstore_put ram_store (Some [97]) (of_nat (length [97 :: uint8_t]))
         (Some [99]) (of_nat (length [99 :: uint8_t]))
     [0xf8, 0x2a, 0x93, 0x11, 1, 0, 0, 0, 120, 1, 0, 0, 0, 98,
      0xf8, 0x2a, 0x93, 0x11, 0, 0, 0, 0, 18, 0, 0, 0,
      0, 0, 0, 0, 0, 0, 0, 0, 0, 0, 0, 0, 0, 0, 0, 0, 0, 0]
     = Some (KVSTORE_OK,
        [0xf8, 0x2a, 0x93, 0x11, 1, 0, 0, 0, 120, 1, 0, 0, 0, 98,
         0xf8, 0x2a, 0x93, 0x11, 1, 0, 0, 0, 97, 1, 0, 0, 0, 99,
         0xf8, 0x2a, 0x93, 0x11, 0, 0, 0, 0, 4, 0, 0, 0, 0, 0, 0, 0])
   \<and> (\<exists>cur'. kvstore_search ram_store
          (Some \<lparr>cursor_position = 0, cursor_key = replicate 16 0, cursor_key_size = 0\<rparr>)
          (Some [97]) (of_nat (length [97 :: uint8_t]))
          [0xf8, 0x2a, 0x93, 0x11, 1, 0, 0, 0, 120, 1, 0, 0, 0, 98,
           0xf8, 0x2a, 0x93, 0x11, 1, 0, 0, 0, 97, 1, 0, 0, 0, 99,
           0xf8, 0x2a, 0x93, 0x11, 0, 0, 0, 0, 4, 0, 0, 0, 0, 0, 0, 0]
          = Some (KVSTORE_OK, Some cur',
             [0xf8, 0x2a, 0x93, 0x11, 1, 0, 0, 0, 120, 1, 0, 0, 0, 98,
              0xf8, 0x2a, 0x93, 0x11, 1, 0, 0, 0, 97, 1, 0, 0, 0, 99,
              0xf8, 0x2a, 0x93, 0x11, 0, 0, 0, 0, 4, 0, 0, 0, 0, 0, 0, 0])
        \<and> kvstore_get ram_store (Some cur') (Some [0, 0, 0]) (Some 3)
             [0xf8, 0x2a, 0x93, 0x11, 1, 0, 0, 0, 120, 1, 0, 0, 0, 98,
              0xf8, 0x2a, 0x93, 0x11, 1, 0, 0, 0, 97, 1, 0, 0, 0, 99,
              0xf8, 0x2a, 0x93, 0x11, 0, 0, 0, 0, 4, 0, 0, 0, 0, 0, 0, 0]
          = (KVSTORE_OK, Some ([99] @ drop (length [99 :: uint8_t]) [0, 0, 0]),
             Some (of_nat (length [99 :: uint8_t])),
             [0xf8, 0x2a, 0x93, 0x11, 1, 0, 0, 0, 120, 1, 0, 0, 0, 98,
              0xf8, 0x2a, 0x93, 0x11, 1, 0, 0, 0, 97, 1, 0, 0, 0, 99,
              0xf8, 0x2a, 0x93, 0x11, 0, 0, 0, 0, 4, 0, 0, 0, 0, 0, 0, 0]))"
proof -
  let ?m = "[0xf8, 0x2a, 0x93, 0x11, 1, 0, 0, 0, 120, 1, 0, 0, 0, 98,
      0xf8, 0x2a, 0x93, 0x11, 0, 0, 0, 0, 18, 0, 0, 0,
      0, 0, 0, 0, 0, 0, 0, 0, 0, 0, 0, 0, 0, 0, 0, 0, 0, 0] :: uint8_t list"
  let ?m' = "[0xf8, 0x2a, 0x93, 0x11, 1, 0, 0, 0, 120, 1, 0, 0, 0, 98,
         0xf8, 0x2a, 0x93, 0x11, 1, 0, 0, 0, 97, 1, 0, 0, 0, 99,
         0xf8, 0x2a, 0x93, 0x11, 0, 0, 0, 0, 4, 0, 0, 0, 0, 0, 0, 0] :: uint8_t list"
  have d: "decode_slots ?m = Some [([120], [98]), ([], replicate 18 0)]"
    by code_simp
  have p: "kvstore_put ram_store (Some [97]) (of_nat (length [97 :: uint8_t]))
         (Some [99]) (of_nat (length [99 :: uint8_t])) ?m = Some (KVSTORE_OK, ?m')"
    by code_simp
  have keys: "\<forall>(kb', vb') \<in> set [([120], [98]), ([], replicate 18 0)].
                kb' \<noteq> [97 :: uint8_t] \<and> length kb' \<le> 16"
    by simp
  have cap: "(of_nat (length [99 :: uint8_t]) :: size_t) \<le> 3"
    by simp
  note rt = put_search_get_roundtrip [OF d _ _ _ _ _ keys p cap, simplified,
      of "\<lparr>cursor_position = 0, cursor_key = replicate 16 0, cursor_key_size = 0\<rparr>" "[0, 0, 0]"]
  from d p rt show ?thesis
    by simp
qed

section \<open>Duplicate keys\<close>

lemma kvstore_prepare_ram:
  assumes "12 < length mem" "length mem < 2^32"
  shows "kvstore_prepare ram_store mem = (KVSTORE_OK, slot_bytes [] (drop 12 mem))"
proof -
  have v: "calculate_value_size (of_nat (length mem)) 0 = of_nat (length mem - 12)"
    using assms(1)
    by (simp add: calculate_value_size_def KVSTORE_HEADER_SIZE_BYTES_def
        KVSTORE_KEY_SIZE_BYTES_def KVSTORE_VALUE_SIZE_BYTES_def of_nat_diff)
  have m: "mem = [] @ mem @ []"
    by simp
  have w: "write_slot ram_store (of_nat (length ([] :: uint8_t list))) None 0 None
             (of_nat (length mem - 12)) mem = (KVSTORE_OK, [] @ slot_bytes [] (drop 12 mem) @ [])"
    using assms by (intro write_slot_ram_free [OF m _ assms(2)]) simp_all
  have gs: "get_size ram_backend = Some ram_get_size"
    by (simp add: ram_backend_def)
  show ?thesis
    using w unfolding ram_store_def
    by (simp add: gs ram_get_size_def v)
qed

lemma slot_bytes_nonempty [simp]: "slot_bytes kb vb \<noteq> []"
  by (simp add: slot_bytes_def KVSTORE_HEADER_MAGIC_def)

lemma put_all_layout:
  assumes "mem = slots_bytes filled @ slot_bytes [] pad" "length mem < 2^32"
    and "\<forall>(kb, vb) \<in> set filled. kb \<noteq> []"
    and "\<forall>(kb, vb) \<in> set ps. kb \<noteq> [] \<and> length kb \<le> 16 \<and> vb \<noteq> []"
    and "length (slots_bytes ps) \<le> length pad"
  shows "\<exists>tail. put_all mem ps = Some (slots_bytes (filled @ ps) @ tail)
              \<and> length (slots_bytes (filled @ ps) @ tail) = length mem"
  using assms
proof (induction ps arbitrary: mem filled pad)
  case Nil
  then show ?case by simp
next
  case (Cons p ps)
  obtain kb vb where p: "p = (kb, vb)" by (cases p)
  let ?need = "12 + length kb + length vb"
  have v: "kb \<noteq> []" "length kb \<le> 16" "vb \<noteq> []"
    using Cons.prems(4) by (simp_all add: p)
  have need: "?need \<le> length pad"
    using Cons.prems(5) by (simp add: p)
  have m: "mem = slots_bytes filled @ slot_bytes [] pad @ []"
    using Cons.prems(1) by simp
  have un: "\<forall>(kb', vb') \<in> set filled. kb' \<noteq> [] \<or> length vb' < ?need"
    using Cons.prems(3) by auto
  let ?tail = "if length pad = ?need then drop (length kb + length vb) pad
               else slot_bytes [] (drop ?need pad)"
  have put: "kvstore_put ram_store (Some kb) (of_nat (length kb)) (Some vb) (of_nat (length vb)) mem
       = Some (KVSTORE_OK, slots_bytes filled @ slot_bytes kb vb @ ?tail @ [])"
    by (rule kvstore_put_ram_split [OF m Cons.prems(2) v need un])
  show ?case
  proof (cases "length pad = ?need")
    case True
    with Cons.prems(5) have "length (slots_bytes ps) = 0"
      by (simp add: p)
    then have "ps = []"
      by (cases ps) auto
    with put True Cons.prems(1) show ?thesis
      by (simp add: p)
  next
    case False
    let ?mem1 = "slots_bytes (filled @ [(kb, vb)]) @ slot_bytes [] (drop ?need pad)"
    have put1: "kvstore_put ram_store (Some kb) (of_nat (length kb)) (Some vb) (of_nat (length vb)) mem
       = Some (KVSTORE_OK, ?mem1)"
      using put False by simp
    have l1: "length ?mem1 = length mem"
      using need Cons.prems(1) by simp
    have "\<exists>tail. put_all ?mem1 ps = Some (slots_bytes ((filled @ [(kb, vb)]) @ ps) @ tail)
              \<and> length (slots_bytes ((filled @ [(kb, vb)]) @ ps) @ tail) = length ?mem1"
      using Cons.prems(2,3,4,5) v l1 need
      by (intro Cons.IH [OF refl]) (auto simp add: p)
    then obtain tail where
      t: "put_all ?mem1 ps = Some (slots_bytes ((filled @ [(kb, vb)]) @ ps) @ tail)"
      and lt: "length (slots_bytes ((filled @ [(kb, vb)]) @ ps) @ tail) = length ?mem1"
      by blast
    have "put_all mem (p # ps) = Some (slots_bytes (filled @ p # ps) @ tail)"
      using put1 t by (simp add: p)
    moreover have "length (slots_bytes (filled @ p # ps) @ tail) = length mem"
      using lt l1 by (simp add: p)
    ultimately show ?thesis by blast
  qed
qed

lemma first_pair_split:
  assumes "K \<in> fst ` set ps"
  shows "\<exists>V post. ps = takeWhile (\<lambda>p. fst p \<noteq> K) ps @ (K, V) # post"
proof -
  have "dropWhile (\<lambda>p. fst p \<noteq> K) ps \<noteq> []"
    using assms by (auto simp add: dropWhile_eq_Nil_conv)
  then obtain q post where d: "dropWhile (\<lambda>p. fst p \<noteq> K) ps = q # post"
    by (cases "dropWhile (\<lambda>p. fst p \<noteq> K) ps") auto
  then have "fst q = K"
    using hd_dropWhile [of "\<lambda>p. fst p \<noteq> K" ps] by auto
  then have "q = (K, snd q)"
    by (cases q) auto
  with d takeWhile_dropWhile_id [of "\<lambda>p. fst p \<noteq> K" ps] show ?thesis
    by metis
qed

text \<open>
  Claim C8. \<open>kvstore_put\<close> does not look for the key it stores: on a memory backend
  formatted by \<open>kvstore_prepare\<close> and large enough for all of them, every
  \<open>kvstore_put\<close> of a list of pairs returns \<open>KVSTORE_OK\<close>, whether or not its key is
  already stored, and each pair gets a slot of its own, in the order of insertion, from
  offset 0. \<open>kvstore_search\<close> for a key of the list then returns \<open>KVSTORE_OK\<close> with the
  cursor at the offset of the first pair of the list that has this key, which is the
  first matching slot in scan order and the earliest inserted.
\<close>

theorem duplicate_keys_first_inserted:
  assumes "length mem0 < 2^32"
    and "\<forall>(kb, vb) \<in> set ps. kb \<noteq> [] \<and> length kb \<le> 16 \<and> vb \<noteq> []"
    and "length (slots_bytes ps) + 12 \<le> length mem0"
    and "K \<in> fst ` set ps"
  shows "\<exists>mem'. put_all (snd (kvstore_prepare ram_store mem0)) ps = Some mem'
           \<and> take (length (slots_bytes ps)) mem' = slots_bytes ps
           \<and> (\<exists>cur'. kvstore_search ram_store (Some cur) (Some K) (of_nat (length K)) mem'
                          = Some (KVSTORE_OK, Some cur', mem')
                 \<and> cursor_position cur'
                     = of_nat (length (slots_bytes (takeWhile (\<lambda>p. fst p \<noteq> K) ps))))"
proof -
  let ?pre = "takeWhile (\<lambda>p. fst p \<noteq> K) ps"
  obtain V post where ps: "ps = ?pre @ (K, V) # post"
    using first_pair_split [OF assms(4)] by blast
  have "length (slots_bytes ps) \<ge> 12"
    by (subst ps) simp
  with assms(3) have big: "12 < length mem0"
    by linarith
  let ?mem1 = "slot_bytes [] (drop 12 mem0)"
  have prep: "snd (kvstore_prepare ram_store mem0) = ?mem1"
    using kvstore_prepare_ram [OF big assms(1)] by simp
  have m1: "?mem1 = slots_bytes [] @ slot_bytes [] (drop 12 mem0)"
    by simp
  have l1: "length ?mem1 < 2^32"
    using big assms(1) by simp
  have room: "length (slots_bytes ps) \<le> length (drop 12 mem0)"
    using assms(3) by simp
  have "\<exists>tail. put_all ?mem1 ps = Some (slots_bytes ([] @ ps) @ tail)
            \<and> length (slots_bytes ([] @ ps) @ tail) = length ?mem1"
    by (rule put_all_layout [OF m1 l1 _ assms(2) room]) simp
  then obtain tail where pa: "put_all ?mem1 ps = Some (slots_bytes ([] @ ps) @ tail)"
    and lt: "length (slots_bytes ([] @ ps) @ tail) = length ?mem1"
    by blast
  let ?mem' = "slots_bytes ps @ tail"
  have l': "length ?mem' < 2^32"
    using lt l1 by simp
  have K: "K \<noteq> []" "length K \<le> 16"
    using assms(2,4) by auto
  have mem': "?mem' = slots_bytes ?pre @ slot_bytes K V @ (slots_bytes post @ tail)"
    by (subst ps) simp
  have keys: "\<forall>(kb', vb') \<in> set ?pre. kb' \<noteq> K \<and> length kb' \<le> 16"
  proof (clarify)
    fix kb' vb'
    assume i: "(kb', vb') \<in> set ?pre"
    then have "fst (kb', vb') \<noteq> K" "(kb', vb') \<in> set ps"
      by (auto dest: set_takeWhileD)
    with assms(2) show "kb' \<noteq> K \<and> length kb' \<le> 16"
      by auto
  qed
  have "kvstore_search ram_store (Some cur) (Some K) (of_nat (length K)) ?mem'
       = Some (KVSTORE_OK,
           Some \<lparr>cursor_position = of_nat (length (slots_bytes ?pre)),
                 cursor_key = K @ drop (length K) (cursor_key cur),
                 cursor_key_size = of_nat (length K)\<rparr>, ?mem')"
    by (rule search_finds_ram [OF mem' l' K keys])
  then show ?thesis
    using pa prep by auto
qed

theorem duplicate_keys_first_inserted_witness:
  "put_all (snd (kvstore_prepare ram_store (replicate 44 0))) [([97], [98]), ([97], [99])]
     = Some [0xf8, 0x2a, 0x93, 0x11, 1, 0, 0, 0, 97, 1, 0, 0, 0, 98,
             0xf8, 0x2a, 0x93, 0x11, 1, 0, 0, 0, 97, 1, 0, 0, 0, 99,
             0xf8, 0x2a, 0x93, 0x11, 0, 0, 0, 0, 4, 0, 0, 0, 0, 0, 0, 0]
   \<and> (\<exists>mem'. put_all (snd (kvstore_prepare ram_store (replicate 44 0)))
                 [([97], [98]), ([97], [99])] = Some mem'
          \<and> take 28 mem' = slots_bytes [([97], [98]), ([97], [99])]
          \<and> (\<exists>cur'. kvstore_search ram_store
                  (Some \<lparr>cursor_position = 7, cursor_key = replicate 16 0, cursor_key_size = 0\<rparr>)
                  (Some [97]) 1 mem' = Some (KVSTORE_OK, Some cur', mem')
                \<and> cursor_position cur' = 0))"
proof -
  have e: "put_all (snd (kvstore_prepare ram_store (replicate 44 0))) [([97], [98]), ([97], [99])]
     = Some [0xf8, 0x2a, 0x93, 0x11, 1, 0, 0, 0, 97, 1, 0, 0, 0, 98,
             0xf8, 0x2a, 0x93, 0x11, 1, 0, 0, 0, 97, 1, 0, 0, 0, 99,
             0xf8, 0x2a, 0x93, 0x11, 0, 0, 0, 0, 4, 0, 0, 0, 0, 0, 0, 0]"
    by code_simp
  have t: "\<exists>mem'. put_all (snd (kvstore_prepare ram_store (replicate 44 0)))
                 [([97], [98]), ([97], [99])] = Some mem'
          \<and> take 28 mem' = slots_bytes [([97], [98]), ([97], [99])]
          \<and> (\<exists>cur'. kvstore_search ram_store
                  (Some \<lparr>cursor_position = 7, cursor_key = replicate 16 0, cursor_key_size = 0\<rparr>)
                  (Some [97]) 1 mem' = Some (KVSTORE_OK, Some cur', mem')
                \<and> cursor_position cur' = 0)"
    using duplicate_keys_first_inserted [of "replicate 44 0" "[([97], [98]), ([97], [99])]" "[97]"
        "\<lparr>cursor_position = 7, cursor_key = replicate 16 0, cursor_key_size = 0\<rparr>"]
    by simp
  from e t show ?thesis
    by (rule conjI)
qed

end
